theory Spec2Isabelle
  imports Main
begin

section \<open>Paths: the POSIX flavour of the runtime's \<^verbatim>\<open>node:path\<close> module\<close>

text \<open>
  \<^verbatim>\<open>run.ts\<close> imports \<^verbatim>\<open>resolve\<close>, \<^verbatim>\<open>dirname\<close>, \<^verbatim>\<open>basename\<close> and \<^verbatim>\<open>join\<close> from
  \<^verbatim>\<open>node:path\<close>. They belong to the runtime, not to the repository; they are modelled here
  after the POSIX implementation of the module (separator \<^verbatim>\<open>/\<close>). A JavaScript string is
  modelled as a \<^typ>\<open>string\<close>; no function below inspects a character other than \<^verbatim>\<open>/\<close>
  and \<^verbatim>\<open>.\<close> and the ASCII letters of \<^verbatim>\<open>pdf\<close>.

  \<^verbatim>\<open>normalizeString\<close> of the module scans the path once, cutting it at every \<^verbatim>\<open>/\<close> and
  keeping the segments seen so far: an empty segment and \<^verbatim>\<open>.\<close> are dropped, \<^verbatim>\<open>..\<close> removes
  the last kept segment unless there is none or it is \<^verbatim>\<open>..\<close> itself, in which case \<^verbatim>\<open>..\<close>
  is kept when \<^verbatim>\<open>allowAboveRoot\<close> holds and dropped otherwise.
\<close>

fun split_slash :: "string \<Rightarrow> string list" where
  "split_slash [] = [] # []"
| "split_slash (c # cs) =
     (if c = CHR ''/'' then [] # split_slash cs
      else (case split_slash cs of
              [] \<Rightarrow> [c] # []
            | s # ss \<Rightarrow> (c # s) # ss))"

fun join_slash :: "string list \<Rightarrow> string" where
  "join_slash [] = []"
| "join_slash [s] = s"
| "join_slash (s # t # ss) = s @ CHR ''/'' # join_slash (t # ss)"

text \<open>The kept segments are held last-first: the head of the list is the last segment kept.\<close>

fun normalize_segment :: "bool \<Rightarrow> string \<Rightarrow> string list \<Rightarrow> string list" where
  "normalize_segment allowAboveRoot seg kept =
     (if seg = [] \<or> seg = ''.'' then kept
      else if seg = ''..'' then
        (case kept of
           [] \<Rightarrow> (if allowAboveRoot then [''..''] else [])
         | k # ks \<Rightarrow>
             (if k = ''..'' then (if allowAboveRoot then ''..'' # kept else kept)
              else ks))
      else seg # kept)"

fun normalize_segments :: "bool \<Rightarrow> string list \<Rightarrow> string list \<Rightarrow> string list" where
  "normalize_segments allowAboveRoot kept [] = kept"
| "normalize_segments allowAboveRoot kept (seg # segs) =
     normalize_segments allowAboveRoot (normalize_segment allowAboveRoot seg kept) segs"

definition normalizeString :: "string \<Rightarrow> bool \<Rightarrow> string" where
  "normalizeString path allowAboveRoot =
     join_slash (rev (normalize_segments allowAboveRoot [] (split_slash path)))"

definition normalize :: "string \<Rightarrow> string" where
  "normalize path =
     (if path = [] then ''.''
      else
        (let isAbsolute = (hd path = CHR ''/'');
             trailingSeparator = (last path = CHR ''/'');
             p = normalizeString path (\<not> isAbsolute)
         in if p = [] then
              (if isAbsolute then ''/'' else if trailingSeparator then ''./'' else ''.'')
            else (if isAbsolute then ''/'' else []) @ p
                   @ (if trailingSeparator then ''/'' else [])))"

definition join :: "string list \<Rightarrow> string" where
  "join args =
     (let parts = filter (\<lambda>a. a \<noteq> []) args
      in if parts = [] then ''.'' else normalize (join_slash parts))"

text \<open>
  \<^verbatim>\<open>resolve\<close> takes its arguments from the right until the path built so far is absolute,
  falling back on the working directory, and normalises the result; it never ends in a
  separator.
\<close>

fun resolve_step :: "string \<Rightarrow> string \<times> bool \<Rightarrow> string \<times> bool" where
  "resolve_step path (resolvedPath, resolvedAbsolute) =
     (if resolvedAbsolute \<or> path = [] then (resolvedPath, resolvedAbsolute)
      else (path @ CHR ''/'' # resolvedPath, hd path = CHR ''/''))"

definition resolve :: "string \<Rightarrow> string list \<Rightarrow> string" where
  "resolve cwd args =
     (case resolve_step cwd (foldr resolve_step args ([], False)) of
        (resolvedPath, resolvedAbsolute) \<Rightarrow>
          (let p = normalizeString resolvedPath (\<not> resolvedAbsolute)
           in if resolvedAbsolute then CHR ''/'' # p
              else if p \<noteq> [] then p else ''.''))"

text \<open>
  \<^verbatim>\<open>basename\<close> drops trailing separators and returns what follows the last remaining
  separator. \<^verbatim>\<open>dirname\<close> scans indices \<^verbatim>\<open>length - 1\<close> down to \<^verbatim>\<open>1\<close>: it skips trailing
  separators, then the base name, and stops at the separator before it (index \<^verbatim>\<open>end\<close>);
  the result is the first \<^verbatim>\<open>end\<close> characters.
\<close>

definition basename :: "string \<Rightarrow> string" where
  "basename path =
     rev (takeWhile (\<lambda>c. c \<noteq> CHR ''/'') (dropWhile (\<lambda>c. c = CHR ''/'') (rev path)))"

definition dirname :: "string \<Rightarrow> string" where
  "dirname path =
     (if path = [] then ''.''
      else
        (let hasRoot = (hd path = CHR ''/'');
             scanned = dropWhile (\<lambda>c. c \<noteq> CHR ''/'')
                         (dropWhile (\<lambda>c. c = CHR ''/'') (rev (tl path)));
             end = length scanned
         in if scanned = [] then (if hasRoot then ''/'' else ''.'')
            else if hasRoot \<and> end = 1 then ''//''
            else take end path))"

section \<open>PathMapper: \<^verbatim>\<open>jsonPathForPdf\<close>\<close>

text \<open>
  \<^verbatim>\<open>.replace(/\.[^.]+$/i, "")\<close> removes the leftmost match: the regular expression is tried
  at each position from the left, and matches where a \<^verbatim>\<open>.\<close> is followed, up to the end of
  the string, by one or more characters none of which is a \<^verbatim>\<open>.\<close>. The match reaches the
  end of the string, so nothing is kept after it.
\<close>

fun replace_ext :: "string \<Rightarrow> string" where
  "replace_ext [] = []"
| "replace_ext (c # cs) =
     (if c = CHR ''.'' \<and> cs \<noteq> [] \<and> CHR ''.'' \<notin> set cs then []
      else c # replace_ext cs)"

definition jsonPathForPdf :: "string \<Rightarrow> string" where
  "jsonPathForPdf pdfPath =
     (let dir = dirname pdfPath;
          base = replace_ext (basename pdfPath)
      in join [dir, base @ ''.json''])"

section \<open>The world the script runs in\<close>

text \<open>
  A thrown JavaScript value carries a message and a stack trace (the empty string stands
  for a missing, falsy field). The handlers show \<^verbatim>\<open>e?.message || e\<close> (the directory scan)
  or \<^verbatim>\<open>e?.stack || e?.message || e\<close> (the candidate loop).
\<close>

datatype exn = Exn (message: string) (stack: string)

datatype shown = Message string | Stack string | Thrown exn

definition message_or_value :: "exn \<Rightarrow> shown" where
  "message_or_value e = (if message e \<noteq> [] then Message (message e) else Thrown e)"

definition stack_or_message :: "exn \<Rightarrow> shown" where
  "stack_or_message e =
     (if stack e \<noteq> [] then Stack (stack e)
      else if message e \<noteq> [] then Message (message e)
      else Thrown e)"

text \<open>
  The console. \<^verbatim>\<open>log\<close>, \<^verbatim>\<open>warn\<close> and \<^verbatim>\<open>error\<close> each print one line; a line is recorded
  with the function that printed it and its arguments. Time stamps and elapsed times are
  left out, and so are the lines printed only under \<^verbatim>\<open>--verbose\<close> (function \<^verbatim>\<open>v\<close> and the
  \<^verbatim>\<open>VERBOSE\<close> blocks), which do nothing but print.
\<close>

datatype level = LOG | WARN | ERROR

datatype line =
    SkipUnreadableDir string shown
  | DiscoveredPdfs nat
  | NoPipes
  | NotValidJson string
  | PolkaExitCode int string
  | PolkaFailed string
  | WroteJson string nat
  | NoPdfFound
  | Processing nat
  | FileIndex nat nat string
  | SkipExisting string
  | ContinuingAfterFailure string
  | UnhandledError string shown
  | Done

text \<open>
  The state: the files that exist, by path, with their text; the console; and
  \<open>started\<close>, the candidates handed to \<^verbatim>\<open>runPolkaWithPath\<close> so far, in order. The last is
  a counter on the runner and not a variable of the script.
\<close>

record world =
  files :: "string \<rightharpoonup> string"
  out :: "(level \<times> line) list"
  started :: "string list"

definition log :: "line \<Rightarrow> world \<Rightarrow> world" where
  "log l w = w\<lparr>out := out w @ [(LOG, l)]\<rparr>"

definition warn :: "line \<Rightarrow> world \<Rightarrow> world" where
  "warn l w = w\<lparr>out := out w @ [(WARN, l)]\<rparr>"

definition error :: "line \<Rightarrow> world \<Rightarrow> world" where
  "error l w = w\<lparr>out := out w @ [(ERROR, l)]\<rparr>"

text \<open>
  What the script cannot decide itself is a parameter: the platform, the instruction text
  \<^verbatim>\<open>prompt\<close> (a constant of some fifty lines that no function inspects), the external
  process, \<^verbatim>\<open>JSON.parse\<close>, and the failures of the file system calls.

  One round trip with the external process (\<^verbatim>\<open>Bun.spawn\<close>, writing and closing its input,
  reading its output to the end, awaiting its exit) either throws, or yields no pipes, or
  yields the captured text and the exit code. The process may change files meanwhile.
\<close>

datatype spawned = Threw exn | PipesMissing | Exited string int

record env =
  platform :: string
  prompt :: string
  spawn :: "string list \<Rightarrow> string \<Rightarrow> (string \<rightharpoonup> string) \<Rightarrow> spawned \<times> (string \<rightharpoonup> string)"
  json_valid :: "string \<Rightarrow> bool"
  access_fails :: "string \<Rightarrow> bool"
  unlink_fails :: "string \<Rightarrow> bool"
  write_fails :: "string \<Rightarrow> exn option"

text \<open>
  \<^verbatim>\<open>access\<close> rejects when nothing exists at the path, and when the probe itself fails
  (a directory on the way that may not be searched). \<^verbatim>\<open>unlink\<close> rejects likewise and
  otherwise removes the file. \<^verbatim>\<open>Bun.write\<close> creates or overwrites the file and returns the
  number of bytes written, or throws.
\<close>

definition access :: "env \<Rightarrow> string \<Rightarrow> world \<Rightarrow> bool" where
  "access e p w = (files w p \<noteq> None \<and> \<not> access_fails e p)"

definition unlink :: "env \<Rightarrow> string \<Rightarrow> world \<Rightarrow> world option" where
  "unlink e p w =
     (if files w p = None \<or> unlink_fails e p then None
      else Some (w\<lparr>files := (files w)(p := None)\<rparr>))"

definition bun_write :: "env \<Rightarrow> string \<Rightarrow> string \<Rightarrow> world \<Rightarrow> exn + nat \<times> world" where
  "bun_write e p content w =
     (case write_fails e p of
        Some x \<Rightarrow> Inl x
      | None \<Rightarrow> Inr (length content, w\<lparr>files := (files w)(p \<mapsto> content)\<rparr>))"

section \<open>FileDiscoverer: \<^verbatim>\<open>findPdfPathsRecursive\<close>\<close>

text \<open>
  What \<^verbatim>\<open>readdir(dir, { withFileTypes: true })\<close> sees: a directory lists its entries in
  the order of the enumeration, each with a name and a kind, or cannot be read. An entry
  that is neither a directory nor a regular file (a symbolic link, a socket) answers
  \<^verbatim>\<open>false\<close> to both \<^verbatim>\<open>isDirectory()\<close> and \<^verbatim>\<open>isFile()\<close>.
\<close>

datatype fsnode =
    RegularFile
  | OtherEntry
  | Directory "(string \<times> fsnode) list"
  | UnreadableDir exn

fun isDirectory :: "fsnode \<Rightarrow> bool" where
  "isDirectory (Directory _) = True"
| "isDirectory (UnreadableDir _) = True"
| "isDirectory _ = False"

fun isFile :: "fsnode \<Rightarrow> bool" where
  "isFile RegularFile = True"
| "isFile _ = False"

definition ENOTDIR :: exn where
  "ENOTDIR = Exn ''ENOTDIR: not a directory, scandir'' []"

fun readdir :: "fsnode \<Rightarrow> exn + (string \<times> fsnode) list" where
  "readdir (Directory entries) = Inr entries"
| "readdir (UnreadableDir e) = Inl e"
| "readdir _ = Inl ENOTDIR"

text \<open>
  \<^verbatim>\<open>/\.pdf$/i.test(name)\<close>: the name ends in a dot and the letters p, d, f, each in either
  case (without the \<^verbatim>\<open>u\<close> flag no other character matches an ASCII letter).
\<close>

definition pdf_test :: "string \<Rightarrow> bool" where
  "pdf_test name =
     (case rev name of
        f # d # p # dot # _ \<Rightarrow>
          dot = CHR ''.'' \<and> (p = CHR ''p'' \<or> p = CHR ''P'')
            \<and> (d = CHR ''d'' \<or> d = CHR ''D'') \<and> (f = CHR ''f'' \<or> f = CHR ''F'')
      | _ \<Rightarrow> False)"

function walk :: "string \<Rightarrow> string \<Rightarrow> fsnode \<Rightarrow> string list \<times> world \<Rightarrow> string list \<times> world"
  and walk_entries ::
    "string \<Rightarrow> string \<Rightarrow> (string \<times> fsnode) list \<Rightarrow> string list \<times> world \<Rightarrow> string list \<times> world"
where
  "walk cwd dir node (results, w) =
     (case readdir node of
        Inl e \<Rightarrow> (results, warn (SkipUnreadableDir dir (message_or_value e)) w)
      | Inr entries \<Rightarrow> walk_entries cwd dir entries (results, w))"
| "walk_entries cwd dir [] st = st"
| "walk_entries cwd dir ((name, node) # es) (results, w) =
     walk_entries cwd dir es
       (let full = resolve cwd [dir, name]
        in if isDirectory node then
             (if name = ''node_modules'' \<or> name = ''.git'' then (results, w)
              else walk cwd full node (results, w))
           else if isFile node \<and> pdf_test name then (results @ [full], w)
           else (results, w))"
  by pat_completeness auto

termination
proof (relation "measure (\<lambda>x. case x of
          Inl (cwd, dir, node, st) \<Rightarrow> size node
        | Inr (cwd, dir, es, st) \<Rightarrow> size_list (size_prod (\<lambda>n. 0) size) es)")
  show "wf (measure (\<lambda>x. case x of
          Inl (cwd, dir, node, st) \<Rightarrow> size node
        | Inr (cwd, dir, es, st) \<Rightarrow> size_list (size_prod (\<lambda>n. 0) size) es))"
    by simp
next
  fix cwd dir :: string and node :: fsnode and results :: "string list" and w :: world
    and entries :: "(string \<times> fsnode) list"
  assume "readdir node = Inr entries"
  then have "size_list (size_prod (\<lambda>n. 0) size) entries < size node"
    by (cases node) auto
  then show "(Inr (cwd, dir, entries, results, w), Inl (cwd, dir, node, results, w))
      \<in> measure (\<lambda>x. case x of
          Inl (cwd, dir, node, st) \<Rightarrow> size node
        | Inr (cwd, dir, es, st) \<Rightarrow> size_list (size_prod (\<lambda>n. 0) size) es)"
    by simp
qed auto

definition findPdfPathsRecursive :: "string \<Rightarrow> string \<Rightarrow> fsnode \<Rightarrow> world \<Rightarrow> string list \<times> world" where
  "findPdfPathsRecursive cwd root tree w =
     (case walk cwd root tree ([], w) of
        (results, w1) \<Rightarrow> (results, log (DiscoveredPdfs (length results)) w1))"

section \<open>The existence check and the runner: \<^verbatim>\<open>fileExists\<close> and \<^verbatim>\<open>runPolkaWithPath\<close>\<close>

text \<open>
  \<^verbatim>\<open>fileExists\<close> is \<^verbatim>\<open>true\<close> when \<^verbatim>\<open>access\<close> resolves and \<^verbatim>\<open>false\<close> when it rejects, whatever
  the reason. \<^verbatim>\<open>runPolkaWithPath\<close> returns the exit code, or throws (\<open>Inl\<close>). An exception
  of the round trip with the process is thrown before the captured text is looked at.
  Line 127 returns \<^verbatim>\<open>1\<close> at once when a pipe is missing. A rejected \<^verbatim>\<open>unlink\<close> is swallowed
  (\<^verbatim>\<open>catch {}\<close>); an exception of \<^verbatim>\<open>Bun.write\<close> leaves the function.
\<close>

definition fileExists :: "env \<Rightarrow> string \<Rightarrow> world \<Rightarrow> bool" where
  "fileExists e p w = (if access e p w then True else False)"

definition cmd :: "env \<Rightarrow> string list" where
  "cmd e =
     (if platform e = ''win32'' then [''cmd'', ''/c'', ''npx @polka-codes/cli --silent'']
      else [''sh'', ''-c'', ''npx @polka-codes/cli --silent''])"

definition input :: "env \<Rightarrow> string \<Rightarrow> string" where
  "input e fullPath =
     prompt e @ [CHR 0x0A, CHR 0x0A] @ ''---'' @ [CHR 0x0A, CHR 0x0A]
       @ ''Process PDF: '' @ fullPath @ [CHR 0x0A]"

definition runPolkaWithPath :: "env \<Rightarrow> string \<Rightarrow> world \<Rightarrow> (exn + int) \<times> world" where
  "runPolkaWithPath e fullPath w =
     (let outPath = jsonPathForPdf fullPath;
          w0 = w\<lparr>started := started w @ [fullPath]\<rparr>
      in case spawn e (cmd e) (input e fullPath) (files w0) of
           (Threw x, fs) \<Rightarrow> (Inl x, w0\<lparr>files := fs\<rparr>)
         | (PipesMissing, fs) \<Rightarrow> (Inr 1, error NoPipes (w0\<lparr>files := fs\<rparr>))
         | (Exited stdoutText code, fs) \<Rightarrow>
             (let w1 = w0\<lparr>files := fs\<rparr>;
                  isJson = json_valid e stdoutText;
                  w2 = (if \<not> isJson then warn (NotValidJson fullPath) w1 else w1);
                  w3 = log (PolkaExitCode code fullPath) w2
              in if code \<noteq> 0 then
                   (let w4 = error (PolkaFailed fullPath) w3
                    in (Inr code, (case unlink e outPath w4 of None \<Rightarrow> w4 | Some w5 \<Rightarrow> w5)))
                 else
                   (case bun_write e outPath stdoutText w3 of
                      Inl x \<Rightarrow> (Inl x, w3)
                    | Inr (written, w4) \<Rightarrow> (Inr code, log (WroteJson outPath written) w4))))"

section \<open>Orchestrator: the top level of the script\<close>

text \<open>One round of the \<^verbatim>\<open>for\<close> loop, for the candidate at index \<open>i\<close>.\<close>

definition iteration :: "env \<Rightarrow> string list \<Rightarrow> nat \<Rightarrow> world \<Rightarrow> world" where
  "iteration e pdfs i w =
     (let p = pdfs ! i;
          outPath = jsonPathForPdf p;
          w1 = log (FileIndex (i + 1) (length pdfs) p) w
      in if fileExists e outPath w1 then log (SkipExisting outPath) w1
         else
           (case runPolkaWithPath e p w1 of
              (Inr code, w2) \<Rightarrow> (if code \<noteq> 0 then warn (ContinuingAfterFailure p) w2 else w2)
            | (Inl x, w2) \<Rightarrow> error (UnhandledError p (stack_or_message x)) w2))"

function loop :: "env \<Rightarrow> string list \<Rightarrow> nat \<Rightarrow> world \<Rightarrow> world" where
  "loop e pdfs i w =
     (if i < length pdfs then loop e pdfs (i + 1) (iteration e pdfs i w) else w)"
  by pat_completeness auto
termination
  by (relation "measure (\<lambda>(e, pdfs, i, w). length pdfs - i)") auto

declare loop.simps [simp del]

text \<open>
  How the process ends: with an exit status, which is \<^verbatim>\<open>0\<close> both after \<^verbatim>\<open>process.exit(0)\<close>
  and when the script runs to its end, or with an exception that nothing caught.

  The first thing the top level does (line 162) is to call \<^verbatim>\<open>process.cwd()\<close>, which returns
  the working directory or throws, for instance when that directory has been removed.
  Nothing at the top level catches: the exception ends the script before discovery begins
  and before it has printed a line; what the runtime then reports is not the script's.
  \<open>process_cwd\<close> is the outcome of that call, \<open>tree\<close> what is found at the directory returned.
\<close>

datatype ending = Exit int | Uncaught exn

definition main :: "env \<Rightarrow> exn + string \<Rightarrow> fsnode \<Rightarrow> world \<Rightarrow> ending \<times> world" where
  "main e process_cwd tree w =
     (case process_cwd of
        Inl x \<Rightarrow> (Uncaught x, w)
      | Inr cwd \<Rightarrow>
          (case findPdfPathsRecursive cwd cwd tree w of
             (pdfs, w1) \<Rightarrow>
               if length pdfs = 0 then (Exit 0, warn NoPdfFound w1)
               else
                 (let w2 = log (Processing (length pdfs)) w1;
                      w3 = loop e pdfs 0 w2
                  in (Exit 0, log Done w3))))"

section \<open>Notions used in the statements and proofs\<close>

text \<open>
  A segment is proper when it is kept as it is by \<open>normalize_segment\<close>. A list of kept
  segments is normal when normalising it again changes nothing: proper segments, below
  them possibly some \<^verbatim>\<open>..\<close> when these are allowed.
\<close>

definition slash_free :: "string \<Rightarrow> bool" where
  "slash_free s = (CHR ''/'' \<notin> set s)"

definition proper_segment :: "string \<Rightarrow> bool" where
  "proper_segment s = (s \<noteq> [] \<and> s \<noteq> ''.'' \<and> s \<noteq> ''..'' \<and> slash_free s)"

fun normal_kept :: "bool \<Rightarrow> string list \<Rightarrow> bool" where
  "normal_kept a [] = True"
| "normal_kept a (k # ks) =
     (if k = ''..'' then a \<and> list_all (\<lambda>s. s = ''..'') ks
      else proper_segment k \<and> normal_kept a ks)"

definition root_prefix :: "bool \<Rightarrow> string" where
  "root_prefix rooted = (if rooted then ''/'' else [])"

definition kept_of :: "string \<Rightarrow> string list" where
  "kept_of d = normalize_segments (hd d \<noteq> CHR ''/'') [] (split_slash d)"

definition resolved_directory :: "string \<Rightarrow> bool \<Rightarrow> string list \<Rightarrow> string" where
  "resolved_directory cwd rooted K =
     (if rooted then CHR ''/'' # join_slash (rev K)
      else if cwd = [] then (if join_slash (rev K) \<noteq> [] then join_slash (rev K) else ''.'')
      else (let p = join_slash (rev (normalize_segments (hd cwd \<noteq> CHR ''/'')
                       (normalize_segments (hd cwd \<noteq> CHR ''/'') [] (split_slash cwd)) (rev K)))
            in if hd cwd = CHR ''/'' then CHR ''/'' # p else if p \<noteq> [] then p else ''.''))"

text \<open>
  \<open>entry_at tree names node\<close>: following the names down from the directory \<open>tree\<close> leads
  to the entry \<open>node\<close>; all names but the last are names of directories on the way.
\<close>

inductive entry_at :: "fsnode \<Rightarrow> string list \<Rightarrow> fsnode \<Rightarrow> bool" where
  here: "(name, node) \<in> set entries \<Longrightarrow> entry_at (Directory entries) [name] node"
| below: "(name, sub) \<in> set entries \<Longrightarrow> entry_at sub names node
          \<Longrightarrow> entry_at (Directory entries) (name # names) node"

definition found_below :: "string \<Rightarrow> string \<Rightarrow> fsnode \<Rightarrow> string set" where
  "found_below cwd dir node =
     {r. \<exists>names. entry_at node names RegularFile
           \<and> r = foldl (\<lambda>d name. resolve cwd [d, name]) dir names
           \<and> pdf_test (last names)
           \<and> ''node_modules'' \<notin> set (butlast names) \<and> ''.git'' \<notin> set (butlast names)}"

text \<open>
  \<open>emptied tree\<close> is the tree with every directory named \<^verbatim>\<open>node_modules\<close> or \<^verbatim>\<open>.git\<close>, at any
  depth, made empty (and readable).
\<close>

fun emptied :: "fsnode \<Rightarrow> fsnode"
  and emptied_entries :: "(string \<times> fsnode) list \<Rightarrow> (string \<times> fsnode) list"
where
  "emptied (Directory es) = Directory (emptied_entries es)"
| "emptied RegularFile = RegularFile"
| "emptied OtherEntry = OtherEntry"
| "emptied (UnreadableDir e) = UnreadableDir e"
| "emptied_entries [] = []"
| "emptied_entries ((name, node) # es) =
     (name, if name = ''node_modules'' \<or> name = ''.git''
            then (if isDirectory node then Directory [] else node)
            else emptied node) # emptied_entries es"

text \<open>Worlds, environments and a directory tree for the examples.\<close>

definition empty_world :: world where
  "empty_world = \<lparr>files = Map.empty, out = [], started = []\<rparr>"

definition stale_world :: world where
  "stale_world = \<lparr>files = [''/w/a/report.json'' \<mapsto> ''old''], out = [], started = []\<rparr>"

definition ok_env :: env where
  "ok_env = \<lparr>platform = ''linux'', prompt = ''Analyze the attached PDF'',
     spawn = (\<lambda>c i fs. (Exited ''[]'' 0, fs)),
     json_valid = (\<lambda>s. s = ''[]''),
     access_fails = (\<lambda>p. False), unlink_fails = (\<lambda>p. False), write_fails = (\<lambda>p. None)\<rparr>"

definition prose_env :: env where
  "prose_env = ok_env\<lparr>spawn := (\<lambda>c i fs. (Exited ''No findings.'' 0, fs))\<rparr>"

definition failing_env :: env where
  "failing_env = ok_env\<lparr>spawn := (\<lambda>c i fs. (Exited [] 2, fs(''/w/a/report.json'' \<mapsto> ''[{'')))\<rparr>"

definition denied_env :: env where
  "denied_env = ok_env\<lparr>spawn := (\<lambda>c i fs. (Exited [] 1, fs)),
     access_fails := (\<lambda>p. True), unlink_fails := (\<lambda>p. True)\<rparr>"

definition mixed_env :: env where
  "mixed_env = ok_env\<lparr>spawn := (\<lambda>c i fs.
       if i = input ok_env ''/w/b.pdf'' then (Threw (Exn ''spawn ENOMEM'' ''Error: spawn ENOMEM at run.ts:120''), fs)
       else if i = input ok_env ''/w/c.pdf'' then (Exited [] 3, fs)
       else (Exited ''[]'' 0, fs))\<rparr>"

definition sample_tree :: fsnode where
  "sample_tree = Directory
     [(''a'', Directory [(''report.PDF'', RegularFile), (''notes.txt'', RegularFile),
         (''node_modules'', Directory [(''dep.pdf'', RegularFile)])]),
      (''b'', Directory [(''link.pdf'', OtherEntry),
         (''private'', UnreadableDir (Exn ''EACCES: permission denied'' []))]),
      (''c.pdf'', RegularFile)]"

section \<open>Properties of the path functions\<close>

lemma split_slash_nonempty: "split_slash p \<noteq> []"
  by (induction p) (auto split: list.splits)

lemma split_slash_free: "s \<in> set (split_slash p) \<Longrightarrow> slash_free s"
  by (induction p arbitrary: s) (auto simp: slash_free_def split: list.splits if_splits)

lemma split_slash_single: "slash_free s \<Longrightarrow> split_slash s = [s]"
  by (induction s) (auto simp: slash_free_def)

lemma split_slash_sep: "slash_free a \<Longrightarrow> split_slash (a @ CHR ''/'' # b) = a # split_slash b"
  by (induction a) (auto simp: slash_free_def)

lemma split_join: "xs \<noteq> [] \<Longrightarrow> list_all slash_free xs \<Longrightarrow> split_slash (join_slash xs) = xs"
proof (induction xs rule: join_slash.induct)
  case 1 then show ?case by simp
next
  case (2 s) then show ?case by (simp add: split_slash_single)
next
  case (3 s t ss)
  then show ?case by (simp add: split_slash_sep)
qed

lemma split_slash_app: "split_slash (a @ CHR ''/'' # b) = split_slash a @ split_slash b"
  by (induction a) (auto split: list.splits simp: split_slash_nonempty)

lemma normalize_segments_append:
  "normalize_segments a K (xs @ ys) = normalize_segments a (normalize_segments a K xs) ys"
  by (induction xs arbitrary: K) auto

lemma all_up_normal: "list_all (\<lambda>s. s = ''..'') ks \<Longrightarrow> a \<Longrightarrow> normal_kept a ks"
  by (induction ks) auto

lemma normal_kept_step:
  "normal_kept a K \<Longrightarrow> slash_free s \<Longrightarrow> normal_kept a (normalize_segment a s K)"
  by (cases K) (auto simp: proper_segment_def all_up_normal)

lemma normal_kept_segments:
  "normal_kept a K \<Longrightarrow> list_all slash_free xs \<Longrightarrow> normal_kept a (normalize_segments a K xs)"
  by (induction xs arbitrary: K) (auto simp: normal_kept_step simp del: normalize_segment.simps)

lemma normal_kept_suffix: "normal_kept a (A @ B) \<Longrightarrow> normal_kept a B"
  by (induction A) (auto split: if_splits simp: all_up_normal)

lemma normal_kept_push: "normal_kept a (x # K) \<Longrightarrow> normalize_segment a x K = x # K"
  by (cases K) (auto simp: proper_segment_def)

lemma normalize_segments_normal:
  "normal_kept a (rev xs @ K) \<Longrightarrow> normalize_segments a K xs = rev xs @ K"
proof (induction xs arbitrary: K)
  case Nil then show ?case by simp
next
  case (Cons x xs)
  then have n: "normal_kept a (rev xs @ (x # K))" by simp
  then have "normal_kept a (x # K)" by (rule normal_kept_suffix)
  then have "normalize_segment a x K = x # K" by (rule normal_kept_push)
  with Cons.IH [OF n] show ?case by simp
qed

lemma normal_kept_free: "normal_kept a K \<Longrightarrow> list_all slash_free K"
  by (induction K) (auto simp: proper_segment_def slash_free_def list_all_iff split: if_splits)

lemma normal_kept_nonempty: "normal_kept a K \<Longrightarrow> s \<in> set K \<Longrightarrow> s \<noteq> []"
  by (induction K) (auto simp: proper_segment_def list_all_iff split: if_splits)

lemma join_slash_snoc:
  "join_slash (xs @ [x]) = concat (map (\<lambda>s. s @ ''/'') xs) @ x"
  by (induction xs rule: join_slash.induct) auto

lemma replace_ext_json: "replace_ext (s @ ''.json'') = s"
  by (induction s) auto

lemma replace_ext_subset: "set (replace_ext b) \<subseteq> set b"
  by (induction b) auto

lemma basename_free: "slash_free (basename p)"
  unfolding basename_def slash_free_def
  by (auto dest: set_takeWhileD)

lemma dirname_nonempty: "dirname p \<noteq> []"
proof (cases "p = []")
  case True then show ?thesis by (simp add: dirname_def)
next
  case False
  then show ?thesis
    unfolding dirname_def Let_def
    by (simp del: dropWhile_eq_Nil_conv)
qed

lemma proper_json: "slash_free s \<Longrightarrow> proper_segment (s @ ''.json'')"
  by (cases s) (auto simp: proper_segment_def slash_free_def Cons_eq_append_conv)

lemma companion_name_proper: "proper_segment (replace_ext (basename p) @ ''.json'')"
  using replace_ext_subset [of "basename p"] basename_free [of p]
  by (intro proper_json) (auto simp: slash_free_def)

lemma kept_of_normal: "normal_kept (hd d \<noteq> CHR ''/'') (kept_of d)"
  unfolding kept_of_def
  by (rule normal_kept_segments) (auto simp: list_all_iff split_slash_free)

lemma join_shape:
  assumes d: "d \<noteq> []" and x: "proper_segment x"
  shows "join [d, x] = root_prefix (hd d = CHR ''/'') @ join_slash (rev (kept_of d) @ [x])"
proof -
  have xf: "slash_free x" and xn: "x \<noteq> []" using x by (auto simp: proper_segment_def)
  have sp: "split_slash (d @ CHR ''/'' # x) = split_slash d @ [x]"
    by (simp add: split_slash_app split_slash_single xf)
  have st: "normalize_segment (hd d \<noteq> CHR ''/'') x (kept_of d) = x # kept_of d"
    using x by (auto simp: proper_segment_def split: list.splits)
  have ns: "normalizeString (d @ CHR ''/'' # x) (hd d \<noteq> CHR ''/'') = join_slash (rev (kept_of d) @ [x])"
    unfolding normalizeString_def sp normalize_segments_append
    using st by (simp add: kept_of_def)
  have ne: "join_slash (rev (kept_of d) @ [x]) \<noteq> []"
    using xn by (simp add: join_slash_snoc)
  have lst: "last (d @ CHR ''/'' # x) \<noteq> CHR ''/''"
  proof -
    have "last x \<in> set x" using xn by (rule last_in_set)
    then have "last x \<noteq> CHR ''/''" using xf by (auto simp: slash_free_def)
    then show ?thesis using xn by simp
  qed
  have hdd: "hd (d @ CHR ''/'' # x) = hd d" using d by simp
  show ?thesis
    using d xn ne lst ns
    by (simp add: join_def normalize_def Let_def hdd root_prefix_def)
qed

lemma slash_free_last: "slash_free x \<Longrightarrow> x \<noteq> [] \<Longrightarrow> last x \<noteq> CHR ''/''"
proof -
  assume f: "slash_free x" and n: "x \<noteq> []"
  have "last x \<in> set x" using n by (rule last_in_set)
  then show ?thesis using f by (auto simp: slash_free_def)
qed

lemma slash_free_hd: "slash_free x \<Longrightarrow> x \<noteq> [] \<Longrightarrow> hd x \<noteq> CHR ''/''"
  by (cases x) (auto simp: slash_free_def)

lemma basename_shape:
  assumes "x \<noteq> []" "slash_free x" "pre = [] \<or> last pre = CHR ''/''"
  shows "basename (pre @ x) = x"
proof -
  have h: "hd (rev x) \<noteq> CHR ''/''"
    using slash_free_last [OF assms(2,1)] by (simp add: hd_rev)
  have d: "dropWhile (\<lambda>c. c = CHR ''/'') (rev x @ rev pre) = rev x @ rev pre"
    using assms(1) h by (cases "rev x") auto
  have t: "takeWhile (\<lambda>c. c \<noteq> CHR ''/'') (rev pre) = []"
    using assms(3) by (cases pre rule: rev_cases) auto
  have "takeWhile (\<lambda>c. c \<noteq> CHR ''/'') (rev x @ rev pre)
          = rev x @ takeWhile (\<lambda>c. c \<noteq> CHR ''/'') (rev pre)"
    by (rule takeWhile_append2) (use assms(2) in \<open>auto simp: slash_free_def\<close>)
  then have "takeWhile (\<lambda>c. c \<noteq> CHR ''/'') (rev x @ rev pre) = rev x"
    using t by simp
  then show ?thesis by (simp add: basename_def d)
qed

lemma scan_free:
  "slash_free x \<Longrightarrow> dropWhile (\<lambda>c. c \<noteq> CHR ''/'') (dropWhile (\<lambda>c. c = CHR ''/'') (rev x @ ys))
     = dropWhile (\<lambda>c. c \<noteq> CHR ''/'') (if x = [] then dropWhile (\<lambda>c. c = CHR ''/'') ys else ys)"
proof (cases "x = []")
  case True then show ?thesis by simp
next
  case False
  assume f: "slash_free x"
  obtain c cs where r: "rev x = c # cs" using False by (cases "rev x") auto
  have "c \<in> set (rev x)" unfolding r by simp
  then have "c \<in> set x" by simp
  then have c: "c \<noteq> CHR ''/''" using f by (auto simp: slash_free_def)
  have "dropWhile (\<lambda>c. c \<noteq> CHR ''/'') (rev x @ ys) = dropWhile (\<lambda>c. c \<noteq> CHR ''/'') ys"
    by (rule dropWhile_append2) (use f in \<open>auto simp: slash_free_def\<close>)
  moreover have "dropWhile (\<lambda>c. c = CHR ''/'') (rev x @ ys) = rev x @ ys"
    using r c by simp
  ultimately show ?thesis using False by simp
qed

lemma scan_plain:
  assumes "slash_free x"
  shows "dropWhile (\<lambda>c. c \<noteq> CHR ''/'') (dropWhile (\<lambda>c. c = CHR ''/'') (rev x)) = []"
proof -
  have a: "\<forall>c\<in>set (rev x). c \<noteq> CHR ''/''" using assms by (auto simp: slash_free_def)
  then have "dropWhile (\<lambda>c. c = CHR ''/'') (rev x) = rev x"
    by (cases "rev x") auto
  moreover have "dropWhile (\<lambda>c. c \<noteq> CHR ''/'') (rev x) = []"
    using a by (simp only: dropWhile_eq_Nil_conv)
  ultimately show ?thesis by simp
qed

lemma dirname_plain:
  assumes "x \<noteq> []" "slash_free x"
  shows "dirname x = ''.''"
proof -
  have f: "slash_free (tl x)" using assms by (cases x) (auto simp: slash_free_def)
  have h: "hd x \<noteq> CHR ''/''" using assms by (rule slash_free_hd [rotated])
  show ?thesis
    unfolding dirname_def Let_def scan_plain [OF f] using assms(1) h by simp
qed

lemma dirname_root:
  assumes "x \<noteq> []" "slash_free x"
  shows "dirname (CHR ''/'' # x) = ''/''"
proof -
  have "dirname (CHR ''/'' # x) =
     (if dropWhile (\<lambda>c. c \<noteq> CHR ''/'') (dropWhile (\<lambda>c. c = CHR ''/'') (rev x)) = [] then ''/''
      else if length (dropWhile (\<lambda>c. c \<noteq> CHR ''/'') (dropWhile (\<lambda>c. c = CHR ''/'') (rev x))) = 1 then ''//''
      else take (length (dropWhile (\<lambda>c. c \<noteq> CHR ''/'') (dropWhile (\<lambda>c. c = CHR ''/'') (rev x)))) (CHR ''/'' # x))"
    unfolding dirname_def Let_def by (simp del: dropWhile_eq_Nil_conv)
  then show ?thesis unfolding scan_plain [OF assms(2)] by simp
qed

lemma dirname_shape:
  assumes x: "x \<noteq> []" "slash_free x" and p: "pre \<noteq> []" "pre \<noteq> ''/''"
  shows "dirname (pre @ CHR ''/'' # x) = pre"
proof -
  obtain c cs where pre: "pre = c # cs" using p(1) by (cases pre) auto
  have n: "\<not> (c = CHR ''/'' \<and> cs = [])" using p(2) pre by auto
  have "dropWhile (\<lambda>c. c \<noteq> CHR ''/'') (dropWhile (\<lambda>c. c = CHR ''/'') (rev x @ (CHR ''/'' # rev cs)))
          = dropWhile (\<lambda>c. c \<noteq> CHR ''/'') (CHR ''/'' # rev cs)"
    unfolding scan_free [OF x(2)] using x(1) by (simp only: if_False)
  then have s: "dropWhile (\<lambda>c. c \<noteq> CHR ''/'') (dropWhile (\<lambda>c. c = CHR ''/'') (rev (cs @ CHR ''/'' # x)))
          = CHR ''/'' # rev cs"
    by simp
  have "dirname (c # cs @ CHR ''/'' # x) = c # cs"
    unfolding dirname_def Let_def list.sel s using n by simp
  then show ?thesis by (simp add: pre)
qed

lemma join_slash_concat:
  "xs \<noteq> [] \<Longrightarrow> concat (map (\<lambda>s. s @ ''/'') xs) = join_slash xs @ ''/''"
  by (induction xs rule: join_slash.induct) auto

lemma join_slash_hd:
  "xs \<noteq> [] \<Longrightarrow> hd xs \<noteq> [] \<Longrightarrow> join_slash xs \<noteq> [] \<and> hd (join_slash xs) = hd (hd xs)"
  by (induction xs rule: join_slash.induct) auto

lemma kept_of_rebuilt:
  assumes K: "normal_kept (\<not> rooted) K" and ne: "K \<noteq> []"
  defines "pre \<equiv> root_prefix rooted @ join_slash (rev K)"
  shows "pre \<noteq> []" and "pre \<noteq> ''/''" and "(hd pre = CHR ''/'') = rooted" and "kept_of pre = K"
proof -
  have rk: "rev K \<noteq> []" using ne by simp
  have "hd (rev K) \<in> set K" using rk by (metis hd_in_set set_rev)
  then have h1: "hd (rev K) \<noteq> []" and h2: "slash_free (hd (rev K))"
    using normal_kept_nonempty [OF K] normal_kept_free [OF K] by (auto simp: list_all_iff)
  have j: "join_slash (rev K) \<noteq> []" and jh: "hd (join_slash (rev K)) \<noteq> CHR ''/''"
    using join_slash_hd [OF rk h1] slash_free_hd [OF h2 h1] by auto
  show "pre \<noteq> []" using j by (simp add: pre_def)
  show "pre \<noteq> ''/''" using j jh by (cases "join_slash (rev K)") (auto simp: pre_def root_prefix_def)
  show hp: "(hd pre = CHR ''/'') = rooted" using j jh by (auto simp: pre_def root_prefix_def)
  have fr: "list_all slash_free (rev K)" using normal_kept_free [OF K] by simp
  have sp: "split_slash (join_slash (rev K)) = rev K" using rk fr by (rule split_join)
  have "normalize_segments (\<not> rooted) [] (split_slash pre) = normalize_segments (\<not> rooted) [] (rev K)"
    by (cases rooted) (simp_all add: pre_def root_prefix_def sp)
  also have "\<dots> = rev (rev K) @ []"
    by (rule normalize_segments_normal) (use K in simp)
  finally show "kept_of pre = K" unfolding kept_of_def hp by simp
qed

lemma shaped_dirname:
  assumes K: "normal_kept (\<not> rooted) K" and x: "proper_segment x"
  defines "r \<equiv> root_prefix rooted @ join_slash (rev K @ [x])"
  shows "dirname r \<noteq> []" and "(hd (dirname r) = CHR ''/'') = rooted" and "kept_of (dirname r) = K"
proof -
  have xn: "x \<noteq> []" and xf: "slash_free x" using x by (auto simp: proper_segment_def)
  have d: "dirname r \<noteq> [] \<and> (hd (dirname r) = CHR ''/'') = rooted \<and> kept_of (dirname r) = K"
  proof (cases "K = []")
    case True
    show ?thesis
    proof (cases rooted)
      case True
      with \<open>K = []\<close> have "r = CHR ''/'' # x" by (simp add: r_def root_prefix_def)
      then have "dirname r = ''/''" using dirname_root [OF xn xf] by simp
      then show ?thesis using True \<open>K = []\<close> by (simp add: kept_of_def)
    next
      case False
      with \<open>K = []\<close> have "r = x" by (simp add: r_def root_prefix_def)
      then have "dirname r = ''.''" using dirname_plain [OF xn xf] by simp
      then show ?thesis using False \<open>K = []\<close> by (simp add: kept_of_def)
    qed
  next
    case False
    note kr = kept_of_rebuilt [OF K False]
    have "r = (root_prefix rooted @ join_slash (rev K)) @ CHR ''/'' # x"
      using False by (simp add: r_def join_slash_snoc join_slash_concat)
    then have "dirname r = root_prefix rooted @ join_slash (rev K)"
      using dirname_shape [OF xn xf kr(1,2)] by simp
    then show ?thesis using kr by simp
  qed
  show "dirname r \<noteq> []" and "(hd (dirname r) = CHR ''/'') = rooted" and "kept_of (dirname r) = K"
    using d by simp_all
qed

lemma shaped_basename:
  assumes x: "proper_segment x"
  shows "basename (root_prefix rooted @ join_slash (rev K @ [x])) = x"
proof -
  have xn: "x \<noteq> []" and xf: "slash_free x" using x by (auto simp: proper_segment_def)
  have r: "root_prefix rooted @ join_slash (rev K @ [x])
        = (root_prefix rooted @ concat (map (\<lambda>s. s @ ''/'') (rev K))) @ x"
    by (simp add: join_slash_snoc)
  have "root_prefix rooted @ concat (map (\<lambda>s. s @ ''/'') (rev K)) = []
        \<or> last (root_prefix rooted @ concat (map (\<lambda>s. s @ ''/'') (rev K))) = CHR ''/''"
    by (cases "K = []") (auto simp: root_prefix_def join_slash_concat)
  then show ?thesis unfolding r by (rule basename_shape [OF xn xf])
qed

lemma shaped_join:
  assumes K: "normal_kept (\<not> rooted) K" and x: "proper_segment x"
  defines "r \<equiv> root_prefix rooted @ join_slash (rev K @ [x])"
  shows "join [dirname r, x] = r"
proof -
  note d = shaped_dirname [OF K x, folded r_def]
  have "join [dirname r, x] = root_prefix (hd (dirname r) = CHR ''/'')
          @ join_slash (rev (kept_of (dirname r)) @ [x])"
    using d(1) x by (rule join_shape)
  then show ?thesis unfolding d(2,3) by (simp add: r_def)
qed

lemma jsonPathForPdf_shape:
  "jsonPathForPdf p = root_prefix (hd (dirname p) = CHR ''/'')
      @ join_slash (rev (kept_of (dirname p)) @ [replace_ext (basename p) @ ''.json''])"
  unfolding jsonPathForPdf_def Let_def
  by (rule join_shape [OF dirname_nonempty companion_name_proper])

lemma normal_kept_proper: "normal_kept a (k # ks) \<Longrightarrow> k \<noteq> ''..'' \<Longrightarrow> proper_segment k"
  by simp

lemma prenormalized:
  "list_all slash_free xs \<Longrightarrow>
     normalize_segments a K (rev (normalize_segments True [] xs)) = normalize_segments a K xs"
proof (induction xs rule: rev_induct)
  case Nil then show ?case by simp
next
  case (snoc s xs)
  define N where "N = normalize_segments True [] xs"
  define M where "M = normalize_segments a K xs"
  have fr: "list_all slash_free xs" and sf: "slash_free s" using snoc.prems by auto
  have IH: "normalize_segments a K (rev N) = M" unfolding N_def M_def by (rule snoc.IH [OF fr])
  have nN: "normal_kept True N" unfolding N_def by (rule normal_kept_segments) (use fr in auto)
  have goal: "normalize_segments a K (rev (normalize_segment True s N)) = normalize_segment a s M"
  proof (cases "s = [] \<or> s = ''.''")
    case True then show ?thesis using IH by auto
  next
    case False
    show ?thesis
    proof (cases "s = ''..''")
      case False
      with \<open>\<not> (s = [] \<or> s = ''.'')\<close> have "normalize_segment True s N = s # N" by simp
      then show ?thesis using IH by (simp add: normalize_segments_append del: normalize_segment.simps)
    next
      case True
      show ?thesis
      proof (cases N)
        case Nil
        then show ?thesis using IH True by (simp del: normalize_segment.simps add: normalize_segment.simps [of True])
      next
        case (Cons k ks)
        show ?thesis
        proof (cases "k = ''..''")
          case True
          then have "normalize_segment True s N = s # N" using \<open>s = ''..''\<close> Cons by simp
          then show ?thesis using IH by (simp add: normalize_segments_append del: normalize_segment.simps)
        next
          case False
          then have st: "normalize_segment True s N = ks" using \<open>s = ''..''\<close> Cons by simp
          have pk: "proper_segment k" using nN False unfolding Cons by (rule normal_kept_proper)
          have "M = normalize_segment a k (normalize_segments a K (rev ks))"
            using IH unfolding Cons by (simp add: normalize_segments_append del: normalize_segment.simps)
          also have "\<dots> = k # normalize_segments a K (rev ks)"
            using pk by (simp add: proper_segment_def)
          finally have "normalize_segment a s M = normalize_segments a K (rev ks)"
            using \<open>s = ''..''\<close> False by simp
          then show ?thesis unfolding st by simp
        qed
      qed
    qed
  qed
  show ?case
    unfolding normalize_segments_append N_def [symmetric] M_def [symmetric]
    using goal by (simp del: normalize_segment.simps)
qed

lemma split_slash_trailing: "split_slash (d @ ''/'') = split_slash d @ [] # []"
  using split_slash_app [of d "[]"] by simp

lemma resolve_directory:
  assumes d: "d \<noteq> []"
  shows "resolve cwd [d] = resolved_directory cwd (hd d = CHR ''/'') (kept_of d)"
proof (cases "hd d = CHR ''/''")
  case True
  then show ?thesis using d
    by (simp add: resolve_def resolved_directory_def normalizeString_def kept_of_def
        split_slash_trailing normalize_segments_append)
next
  case False
  have k: "kept_of d = normalize_segments True [] (split_slash d)"
    using False by (simp add: kept_of_def)
  show ?thesis
  proof (cases "cwd = []")
    case True
    then show ?thesis using d False
      by (simp add: resolve_def resolved_directory_def normalizeString_def k
        split_slash_trailing normalize_segments_append)
  next
    case cw: False
    have fr: "list_all slash_free (split_slash d)" by (simp add: list_all_iff split_slash_free)
    have sp: "split_slash (cwd @ CHR ''/'' # d @ ''/'') = split_slash cwd @ split_slash d @ [] # []"
      using split_slash_app [of cwd "d @ ''/''"] by (simp add: split_slash_trailing)
    have "normalize_segments (hd cwd \<noteq> CHR ''/'') [] (split_slash (cwd @ CHR ''/'' # d @ ''/''))
        = normalize_segments (hd cwd \<noteq> CHR ''/'')
            (normalize_segments (hd cwd \<noteq> CHR ''/'') [] (split_slash cwd)) (rev (kept_of d))"
      unfolding sp k prenormalized [OF fr] by (simp add: normalize_segments_append)
    then show ?thesis using d False cw
      by (cases "hd cwd = CHR ''/''")
         (simp_all add: resolve_def resolved_directory_def normalizeString_def Let_def)
  qed
qed

lemma replace_ext_no_dot: "CHR ''.'' \<notin> set b \<Longrightarrow> replace_ext b = b"
  by (induction b) auto

lemma jsonPathForPdf_basename:
  "basename (jsonPathForPdf p) = replace_ext (basename p) @ ''.json''"
  unfolding jsonPathForPdf_shape by (rule shaped_basename [OF companion_name_proper])

lemma jsonPathForPdf_suffix: "\<exists>stem. jsonPathForPdf p = stem @ ''.json''"
proof -
  have "jsonPathForPdf p = (root_prefix (hd (dirname p) = CHR ''/'')
      @ concat (map (\<lambda>s. s @ ''/'') (rev (kept_of (dirname p)))) @ replace_ext (basename p)) @ ''.json''"
    unfolding jsonPathForPdf_shape by (simp add: join_slash_snoc)
  then show ?thesis by blast
qed

lemma jsonPathForPdf_directory:
  "resolve cwd [dirname (jsonPathForPdf p)] = resolve cwd [dirname p]"
proof -
  have K: "normal_kept (\<not> (hd (dirname p) = CHR ''/'')) (kept_of (dirname p))"
    using kept_of_normal [of "dirname p"] by simp
  note d = shaped_dirname [OF K companion_name_proper [of p], folded jsonPathForPdf_shape]
  have "resolve cwd [dirname (jsonPathForPdf p)]
      = resolved_directory cwd (hd (dirname (jsonPathForPdf p)) = CHR ''/'') (kept_of (dirname (jsonPathForPdf p)))"
    using d(1) by (rule resolve_directory)
  also have "\<dots> = resolved_directory cwd (hd (dirname p) = CHR ''/'') (kept_of (dirname p))"
    unfolding d(2,3) ..
  also have "\<dots> = resolve cwd [dirname p]"
    using dirname_nonempty [of p] by (rule resolve_directory [symmetric])
  finally show ?thesis .
qed

lemma companion_example: "jsonPathForPdf ''/w/a/report.pdf'' = ''/w/a/report.json''"
  by code_simp

section \<open>Printing changes the console only\<close>

lemma files_log [simp]: "files (log l w) = files w" "files (warn l w) = files w" "files (error l w) = files w"
  by (simp_all add: log_def warn_def error_def)

lemma started_log [simp]: "started (log l w) = started w" "started (warn l w) = started w" "started (error l w) = started w"
  by (simp_all add: log_def warn_def error_def)

lemma out_log [simp]: "out (log l w) = out w @ [(LOG, l)]" "out (warn l w) = out w @ [(WARN, l)]"
  "out (error l w) = out w @ [(ERROR, l)]"
  by (simp_all add: log_def warn_def error_def)

lemma fileExists_log [simp]: "fileExists e p (log l w) = fileExists e p w"
  by (simp add: fileExists_def access_def)

section \<open>Properties of the directory scan\<close>

lemma entry_at_nonempty: "entry_at node names x \<Longrightarrow> names \<noteq> []"
  by (induction rule: entry_at.induct) auto

lemma entry_at_mono:
  "entry_at (Directory es) names x \<Longrightarrow> entry_at (Directory (e # es)) names x"
  by (erule entry_at.cases) (auto intro: entry_at.intros)

lemma found_below_tail: "found_below cwd dir (Directory es) \<subseteq> found_below cwd dir (Directory (e # es))"
  unfolding found_below_def by (blast intro: entry_at_mono)

lemma found_below_file:
  "pdf_test name \<Longrightarrow> resolve cwd [dir, name] \<in> found_below cwd dir (Directory ((name, RegularFile) # es))"
  unfolding found_below_def
  by (rule CollectI, rule exI [of _ "[name]"]) (auto intro: entry_at.intros)

lemma found_below_sub:
  assumes "name \<noteq> ''node_modules''" "name \<noteq> ''.git''"
  shows "found_below cwd (resolve cwd [dir, name]) node \<subseteq> found_below cwd dir (Directory ((name, node) # es))"
proof
  fix r assume "r \<in> found_below cwd (resolve cwd [dir, name]) node"
  then obtain names where n: "entry_at node names RegularFile"
      "r = foldl (\<lambda>d name. resolve cwd [d, name]) (resolve cwd [dir, name]) names"
      "pdf_test (last names)" "''node_modules'' \<notin> set (butlast names)" "''.git'' \<notin> set (butlast names)"
    unfolding found_below_def by blast
  have ne: "names \<noteq> []" using n(1) by (rule entry_at_nonempty)
  have "entry_at (Directory ((name, node) # es)) (name # names) RegularFile"
    using n(1) by (auto intro: entry_at.below)
  moreover have "r = foldl (\<lambda>d name. resolve cwd [d, name]) dir (name # names)" using n(2) by simp
  moreover have "pdf_test (last (name # names))" using n(3) ne by simp
  moreover have "''node_modules'' \<notin> set (butlast (name # names))" "''.git'' \<notin> set (butlast (name # names))"
    using n(4,5) ne assms by auto
  ultimately show "r \<in> found_below cwd dir (Directory ((name, node) # es))"
    unfolding found_below_def by blast
qed

lemma readdir_Inr: "readdir node = Inr es \<Longrightarrow> node = Directory es"
  by (cases node) auto

lemma isFile_iff: "isFile node = (node = RegularFile)"
  by (cases node) auto

lemma walk_sound:
  "set (fst (walk cwd dir node st)) \<subseteq> set (fst st) \<union> found_below cwd dir node"
  "set (fst (walk_entries cwd dir es st)) \<subseteq> set (fst st) \<union> found_below cwd dir (Directory es)"
proof (induction cwd dir node st and cwd dir es st rule: walk_walk_entries.induct)
  case (1 cwd dir node results w)
  show ?case
  proof (cases "readdir node")
    case (Inl e) then show ?thesis by simp
  next
    case (Inr entries)
    then show ?thesis using "1" [OF Inr] readdir_Inr [OF Inr] by simp
  qed
next
  case (2 cwd dir st)
  then show ?case by simp
next
  case (3 cwd dir name node es results w)
  define st' where "st' = (let full = resolve cwd [dir, name]
        in if isDirectory node then
             (if name = ''node_modules'' \<or> name = ''.git'' then (results, w)
              else walk cwd full node (results, w))
           else if isFile node \<and> pdf_test name then (results @ [full], w)
           else (results, w))"
  have step: "set (fst st') \<subseteq> set results \<union> found_below cwd dir (Directory ((name, node) # es))"
  proof (cases "isDirectory node")
    case True
    show ?thesis
    proof (cases "name = ''node_modules'' \<or> name = ''.git''")
      case True
      then show ?thesis using \<open>isDirectory node\<close> by (simp add: st'_def)
    next
      case False
      have "set (fst (walk cwd (resolve cwd [dir, name]) node (results, w)))
              \<subseteq> set results \<union> found_below cwd (resolve cwd [dir, name]) node"
        using "3.IH"(1) [OF refl True False] by simp
      moreover have "found_below cwd (resolve cwd [dir, name]) node
              \<subseteq> found_below cwd dir (Directory ((name, node) # es))"
        using False by (intro found_below_sub) auto
      ultimately show ?thesis using True False
        by (auto simp: st'_def Let_def simp del: walk.simps)
    qed
  next
    case False
    then show ?thesis using found_below_file [of name cwd dir es]
      by (auto simp: st'_def isFile_iff)
  qed
  have "set (fst (walk_entries cwd dir es st')) \<subseteq> set (fst st') \<union> found_below cwd dir (Directory es)"
    using "3.IH"(2) unfolding st'_def by simp
  then have "set (fst (walk_entries cwd dir es st'))
      \<subseteq> set results \<union> found_below cwd dir (Directory ((name, node) # es))"
    using step found_below_tail [of cwd dir es "(name, node)"] by blast
  then show ?case by (simp add: st'_def)
qed

lemma emptied_kind [simp]:
  "isDirectory (emptied node) = isDirectory node" "isFile (emptied node) = isFile node"
  by (cases node; simp)+

lemma walk_emptied:
  "walk cwd dir (emptied node) st = walk cwd dir node st"
  "walk_entries cwd dir (emptied_entries es) st = walk_entries cwd dir es st"
proof (induction cwd dir node st and cwd dir es st rule: walk_walk_entries.induct)
  case (1 cwd dir node results w)
  show ?case
  proof (cases node)
    case (Directory es)
    then show ?thesis using "1" [of es] by simp
  qed simp_all
next
  case (2 cwd dir st)
  then show ?case by simp
next
  case (3 cwd dir name node es results w)
  show ?case
  proof (cases "isDirectory node")
    case True
    show ?thesis
    proof (cases "name = ''node_modules'' \<or> name = ''.git''")
      case True
      then show ?thesis using \<open>isDirectory node\<close> "3.IH"(2) by (simp del: walk.simps)
    next
      case False
      then show ?thesis using True "3.IH"(1) [OF refl True False] "3.IH"(2)
        by (simp add: Let_def del: walk.simps)
    qed
  next
    case False
    then show ?thesis using "3.IH"(2)
      by (cases "name = ''node_modules'' \<or> name = ''.git''") (simp_all add: Let_def del: walk.simps)
  qed
qed

lemma walk_keeps:
  "files (snd (walk cwd dir node st)) = files (snd st) \<and> started (snd (walk cwd dir node st)) = started (snd st)"
  "files (snd (walk_entries cwd dir es st)) = files (snd st) \<and> started (snd (walk_entries cwd dir es st)) = started (snd st)"
proof (induction cwd dir node st and cwd dir es st rule: walk_walk_entries.induct)
  case (1 cwd dir node results w)
  then show ?case by (cases "readdir node") auto
next
  case (2 cwd dir st)
  then show ?case by simp
next
  case (3 cwd dir name node es results w)
  then show ?case by (auto simp: Let_def simp del: walk.simps)
qed

lemma discovery_keeps:
  "files (snd (findPdfPathsRecursive cwd root tree w)) = files w"
  "started (snd (findPdfPathsRecursive cwd root tree w)) = started w"
  using walk_keeps(1) [of cwd root tree "([], w)"]
  by (auto simp: findPdfPathsRecursive_def split: prod.splits)

section \<open>Properties of the runner and the loop\<close>

lemma loop_fold: "loop e pdfs i w = fold (iteration e pdfs) [i..<length pdfs] w"
proof (induction e pdfs i w rule: loop.induct)
  case (1 e pdfs i w)
  show ?case
  proof (cases "i < length pdfs")
    case True
    then have "loop e pdfs i w = loop e pdfs (i + 1) (iteration e pdfs i w)"
      by (subst loop.simps) simp
    then show ?thesis using True "1" by (simp add: upt_rec [of i])
  next
    case False
    then show ?thesis by (subst loop.simps) simp
  qed
qed

lemma json_valid_update [simp]:
  "cmd (e\<lparr>json_valid := j\<rparr>) = cmd e"
  "input (e\<lparr>json_valid := j\<rparr>) p = input e p"
  "unlink (e\<lparr>json_valid := j\<rparr>) p w = unlink e p w"
  "bun_write (e\<lparr>json_valid := j\<rparr>) p t w = bun_write e p t w"
  by (simp_all add: cmd_def input_def unlink_def bun_write_def)

lemma runPolkaWithPath_json:
  "fst (runPolkaWithPath (e\<lparr>json_valid := j\<rparr>) p w) = fst (runPolkaWithPath e p w)
   \<and> files (snd (runPolkaWithPath (e\<lparr>json_valid := j\<rparr>) p w)) = files (snd (runPolkaWithPath e p w))"
proof (cases "spawn e (cmd e) (input e p) (files w)")
  case (Pair r fs)
  show ?thesis
  proof (cases r)
    case (Threw x)
    then show ?thesis using Pair by (simp add: runPolkaWithPath_def)
  next
    case PipesMissing
    then show ?thesis using Pair by (simp add: runPolkaWithPath_def)
  next
    case (Exited t code)
    show ?thesis
    proof (cases "code = 0")
      case True
      then show ?thesis using Pair Exited
        by (cases "write_fails e (jsonPathForPdf p)")
           (simp_all add: runPolkaWithPath_def Let_def bun_write_def)
    next
      case False
      then show ?thesis using Pair Exited
        by (simp add: runPolkaWithPath_def Let_def unlink_def)
    qed
  qed
qed

lemma runPolkaWithPath_not_json:
  assumes "spawn e (cmd e) (input e p) (files w) = (Exited stdoutText 0, fs)"
    and "\<not> json_valid e stdoutText"
  shows "(WARN, NotValidJson p) \<in> set (out (snd (runPolkaWithPath e p w)))
     \<and> (case runPolkaWithPath e p w of
            (Inr code, w') \<Rightarrow> files w' (jsonPathForPdf p) = Some stdoutText
          | (Inl x, w') \<Rightarrow> write_fails e (jsonPathForPdf p) = Some x)"
proof (cases "write_fails e (jsonPathForPdf p)")
  case None
  then show ?thesis using assms
    by (simp add: runPolkaWithPath_def Let_def bun_write_def)
next
  case (Some x)
  then show ?thesis using assms
    by (simp add: runPolkaWithPath_def Let_def bun_write_def)
qed

lemma runPolkaWithPath_started:
  "started (snd (runPolkaWithPath e p w)) = started w @ [p]"
proof (cases "spawn e (cmd e) (input e p) (files w)")
  case (Pair r fs)
  show ?thesis
  proof (cases r)
    case (Threw x)
    then show ?thesis using Pair by (simp add: runPolkaWithPath_def)
  next
    case PipesMissing
    then show ?thesis using Pair by (simp add: runPolkaWithPath_def)
  next
    case (Exited t code)
    show ?thesis
    proof (cases "code = 0")
      case True
      then show ?thesis using Pair Exited
        by (cases "write_fails e (jsonPathForPdf p)")
           (simp_all add: runPolkaWithPath_def Let_def bun_write_def)
    next
      case False
      then show ?thesis using Pair Exited
        by (simp add: runPolkaWithPath_def Let_def unlink_def)
    qed
  qed
qed

lemma iteration_started:
  assumes "\<not> fileExists e (jsonPathForPdf (pdfs ! i)) w"
  shows "started (iteration e pdfs i w) = started w @ [pdfs ! i]"
proof -
  obtain r w2 where
    rp: "runPolkaWithPath e (pdfs ! i) (log (FileIndex (i + 1) (length pdfs) (pdfs ! i)) w) = (r, w2)"
    by (cases "runPolkaWithPath e (pdfs ! i) (log (FileIndex (i + 1) (length pdfs) (pdfs ! i)) w)")
  have "started (snd (runPolkaWithPath e (pdfs ! i) (log (FileIndex (i + 1) (length pdfs) (pdfs ! i)) w)))
      = started (log (FileIndex (i + 1) (length pdfs) (pdfs ! i)) w) @ [pdfs ! i]"
    by (rule runPolkaWithPath_started)
  then have s: "started w2 = started w @ [pdfs ! i]"
    unfolding rp by simp
  show ?thesis
    using assms rp s by (cases r) (simp_all add: iteration_def Let_def)
qed

section \<open>The claims\<close>

text \<open>
  Claim C1. For every candidate whose external process exits with status zero, the job
  either completes, and then it returns that status and a file exists at the companion
  path whose content is the captured output text, character for character; or it ends
  with the exception that \<^verbatim>\<open>Bun.write\<close> has thrown. It completes whenever \<^verbatim>\<open>Bun.write\<close> does
  not throw. (The text is written as it was captured; its encoding is not modelled.)
\<close>

theorem exit_zero_output_written:
  assumes "spawn e (cmd e) (input e p) (files w) = (Exited stdoutText 0, fs)"
  shows "(case runPolkaWithPath e p w of
            (Inr code, w') \<Rightarrow>
              code = 0 \<and> files w' (jsonPathForPdf p) = Some stdoutText
                \<and> write_fails e (jsonPathForPdf p) = None
          | (Inl x, w') \<Rightarrow> write_fails e (jsonPathForPdf p) = Some x)"
proof (cases "write_fails e (jsonPathForPdf p)")
  case None
  then show ?thesis using assms
    by (simp add: runPolkaWithPath_def Let_def bun_write_def)
next
  case (Some x)
  then show ?thesis using assms
    by (simp add: runPolkaWithPath_def Let_def bun_write_def)
qed

theorem exit_zero_output_written_witness:
  "fst (runPolkaWithPath ok_env ''/w/a/report.pdf'' empty_world) = Inr 0
   \<and> files (snd (runPolkaWithPath ok_env ''/w/a/report.pdf'' empty_world)) ''/w/a/report.json'' = Some ''[]''"
proof -
  have h1: "spawn ok_env (cmd ok_env) (input ok_env ''/w/a/report.pdf'') (files empty_world)
      = (Exited ''[]'' 0, files empty_world)"
    by (simp add: ok_env_def)
  have f: "fst (runPolkaWithPath ok_env ''/w/a/report.pdf'' empty_world) = Inr 0" by code_simp
  then have h2: "runPolkaWithPath ok_env ''/w/a/report.pdf'' empty_world
      = (Inr 0, snd (runPolkaWithPath ok_env ''/w/a/report.pdf'' empty_world))"
    by (simp add: prod_eq_iff)
  have "files (snd (runPolkaWithPath ok_env ''/w/a/report.pdf'' empty_world)) (jsonPathForPdf ''/w/a/report.pdf'')
      = Some ''[]''"
    using exit_zero_output_written [OF h1] by (subst (asm) h2) simp
  then show ?thesis using f by (simp add: companion_example)
qed

text \<open>
  Claim C2, amended. For every candidate whose external process exits with a non-zero
  status the job returns that status and has tried to delete the companion path: no file
  exists there afterwards, even if the process had created one meanwhile, unless the
  deletion fails. A failed deletion is ignored (\<^verbatim>\<open>catch {}\<close>), and the file then stays as
  the process left it.
\<close>

theorem nonzero_exit_removes_output:
  assumes "spawn e (cmd e) (input e p) (files w) = (Exited stdoutText code, fs)"
    and "code \<noteq> 0"
  shows "fst (runPolkaWithPath e p w) = Inr code
     \<and> files (snd (runPolkaWithPath e p w)) (jsonPathForPdf p)
         = (if unlink_fails e (jsonPathForPdf p) then fs (jsonPathForPdf p) else None)"
  using assms
  by (auto simp: runPolkaWithPath_def Let_def unlink_def split: option.splits)

theorem nonzero_exit_removes_output_witness:
  "fst (runPolkaWithPath failing_env ''/w/a/report.pdf'' empty_world) = Inr 2
   \<and> files (snd (runPolkaWithPath failing_env ''/w/a/report.pdf'' empty_world)) ''/w/a/report.json'' = None"
proof -
  have h1: "spawn failing_env (cmd failing_env) (input failing_env ''/w/a/report.pdf'') (files empty_world)
      = (Exited [] 2, (files empty_world)(''/w/a/report.json'' \<mapsto> ''[{''))"
    by (simp add: failing_env_def)
  have h2: "(2::int) \<noteq> 0" by simp
  have u: "\<not> unlink_fails failing_env ''/w/a/report.json''" by (simp add: failing_env_def ok_env_def)
  show ?thesis using nonzero_exit_removes_output [OF h1 h2] u by (simp add: companion_example)
qed

text \<open>
  The claim as first stated, without the proviso, fails: a companion file in a directory
  that may be read but not searched is not seen by \<^verbatim>\<open>access\<close>, the process fails on the
  document, \<^verbatim>\<open>unlink\<close> fails as well, and the file is still there when the job has
  returned.
\<close>

theorem nonzero_exit_leaves_file:
  "fst (runPolkaWithPath denied_env ''/w/a/report.pdf'' stale_world) = Inr 1
   \<and> files (snd (runPolkaWithPath denied_env ''/w/a/report.pdf'' stale_world))
        (jsonPathForPdf ''/w/a/report.pdf'') = Some ''old''"
  by code_simp

text \<open>
  Claim C3. Every path returned by \<^verbatim>\<open>findPdfPathsRecursive\<close> is the path of an entry of the
  tree below the root that is a regular file, whose name ends in \<^verbatim>\<open>.pdf\<close> in any mix of
  upper and lower case, and none of the directories on the way from the root down to the
  entry, at any depth, is named \<^verbatim>\<open>node_modules\<close> or \<^verbatim>\<open>.git\<close>. What lies beneath a directory
  of such a name has no influence at all: emptying every such directory leaves the result
  and the console as they were. (The root is the directory the walk starts in; it has no
  name in the tree.)
\<close>

theorem discovery_sound:
  assumes "r \<in> set (fst (findPdfPathsRecursive cwd root tree w))"
  shows "(\<exists>names. entry_at tree names RegularFile
           \<and> r = foldl (\<lambda>d name. resolve cwd [d, name]) root names
           \<and> pdf_test (last names)
           \<and> ''node_modules'' \<notin> set (butlast names) \<and> ''.git'' \<notin> set (butlast names))
     \<and> findPdfPathsRecursive cwd root (emptied tree) w = findPdfPathsRecursive cwd root tree w"
proof -
  have "r \<in> set (fst (walk cwd root tree ([], w)))"
    using assms by (simp add: findPdfPathsRecursive_def split: prod.splits)
  then have "r \<in> found_below cwd root tree"
    using walk_sound(1) [of cwd root tree "([], w)"] by auto
  then have "\<exists>names. entry_at tree names RegularFile
           \<and> r = foldl (\<lambda>d name. resolve cwd [d, name]) root names
           \<and> pdf_test (last names)
           \<and> ''node_modules'' \<notin> set (butlast names) \<and> ''.git'' \<notin> set (butlast names)"
    unfolding found_below_def by blast
  moreover have "findPdfPathsRecursive cwd root (emptied tree) w = findPdfPathsRecursive cwd root tree w"
    unfolding findPdfPathsRecursive_def walk_emptied(1) ..
  ultimately show ?thesis by (rule conjI)
qed

theorem discovery_sound_witness:
  "fst (findPdfPathsRecursive ''/w'' ''/w'' sample_tree empty_world) = [''/w/a/report.PDF'', ''/w/c.pdf'']
   \<and> (\<exists>names. entry_at sample_tree names RegularFile
           \<and> ''/w/a/report.PDF'' = foldl (\<lambda>d name. resolve ''/w'' [d, name]) ''/w'' names
           \<and> pdf_test (last names)
           \<and> ''node_modules'' \<notin> set (butlast names) \<and> ''.git'' \<notin> set (butlast names))
   \<and> fst (findPdfPathsRecursive ''/w'' ''/w'' (emptied sample_tree) empty_world)
        = [''/w/a/report.PDF'', ''/w/c.pdf'']"
proof -
  have f: "fst (findPdfPathsRecursive ''/w'' ''/w'' sample_tree empty_world) = [''/w/a/report.PDF'', ''/w/c.pdf'']"
    by code_simp
  then have h: "''/w/a/report.PDF'' \<in> set (fst (findPdfPathsRecursive ''/w'' ''/w'' sample_tree empty_world))"
    by simp
  show ?thesis using f discovery_sound [OF h] by simp
qed

text \<open>
  Claim C4, amended. For every candidate whose companion path exists when the candidate is
  reached and is found by the existence probe (\<^verbatim>\<open>access\<close> succeeds), the runner is not
  invoked: the round of the loop prints the two lines of a skipped candidate, changes
  nothing else, and the loop goes on with the next candidate. A companion path for which
  the probe fails, for whatever reason (nothing is there, or \<^verbatim>\<open>access\<close> rejects although the
  file exists), is treated as absent: the runner is invoked for that candidate.
\<close>

theorem existing_companion_is_skipped:
  assumes "i < length pdfs"
  shows "(files w (jsonPathForPdf (pdfs ! i)) \<noteq> None
            \<and> \<not> access_fails e (jsonPathForPdf (pdfs ! i)) \<longrightarrow>
          iteration e pdfs i w
            = w\<lparr>out := out w @ [(LOG, FileIndex (i + 1) (length pdfs) (pdfs ! i)),
                                  (LOG, SkipExisting (jsonPathForPdf (pdfs ! i)))]\<rparr>
          \<and> started (iteration e pdfs i w) = started w
          \<and> loop e pdfs i w = loop e pdfs (i + 1) (iteration e pdfs i w))
     \<and> (files w (jsonPathForPdf (pdfs ! i)) = None
            \<or> access_fails e (jsonPathForPdf (pdfs ! i)) \<longrightarrow>
          started (iteration e pdfs i w) = started w @ [pdfs ! i])"
proof (intro conjI impI)
  assume a: "files w (jsonPathForPdf (pdfs ! i)) \<noteq> None
            \<and> \<not> access_fails e (jsonPathForPdf (pdfs ! i))"
  then have "fileExists e (jsonPathForPdf (pdfs ! i)) w"
    by (simp add: fileExists_def access_def)
  then have "iteration e pdfs i w
           = log (SkipExisting (jsonPathForPdf (pdfs ! i)))
               (log (FileIndex (i + 1) (length pdfs) (pdfs ! i)) w)"
    by (simp add: iteration_def Let_def)
  then show it: "iteration e pdfs i w
           = w\<lparr>out := out w @ [(LOG, FileIndex (i + 1) (length pdfs) (pdfs ! i)),
                                 (LOG, SkipExisting (jsonPathForPdf (pdfs ! i)))]\<rparr>"
    by (simp add: log_def)
  then show "started (iteration e pdfs i w) = started w" by simp
  show "loop e pdfs i w = loop e pdfs (i + 1) (iteration e pdfs i w)"
    using assms by (subst loop.simps) simp
next
  assume "files w (jsonPathForPdf (pdfs ! i)) = None
            \<or> access_fails e (jsonPathForPdf (pdfs ! i))"
  then have "\<not> fileExists e (jsonPathForPdf (pdfs ! i)) w"
    by (auto simp: fileExists_def access_def)
  then show "started (iteration e pdfs i w) = started w @ [pdfs ! i]"
    by (rule iteration_started)
qed

theorem existing_companion_is_skipped_witness:
  "out (iteration ok_env [''/w/a/report.pdf''] 0 stale_world)
     = [(LOG, FileIndex 1 1 ''/w/a/report.pdf''), (LOG, SkipExisting ''/w/a/report.json'')]
   \<and> started (iteration ok_env [''/w/a/report.pdf''] 0 stale_world) = []
   \<and> started (iteration denied_env [''/w/b.pdf'', ''/w/a/report.pdf''] 1 stale_world)
       = [''/w/a/report.pdf'']"
proof -
  have h1: "0 < length [''/w/a/report.pdf'']" by simp
  have h2: "files stale_world (jsonPathForPdf ([''/w/a/report.pdf''] ! 0)) \<noteq> None
      \<and> \<not> access_fails ok_env (jsonPathForPdf ([''/w/a/report.pdf''] ! 0))"
    by (simp add: companion_example stale_world_def ok_env_def)
  have s: "iteration ok_env [''/w/a/report.pdf''] 0 stale_world
            = stale_world\<lparr>out := out stale_world @
                 [(LOG, FileIndex (0 + 1) (length [''/w/a/report.pdf'']) ([''/w/a/report.pdf''] ! 0)),
                  (LOG, SkipExisting (jsonPathForPdf ([''/w/a/report.pdf''] ! 0)))]\<rparr>"
    using existing_companion_is_skipped [OF h1, where e = ok_env and w = stale_world] h2
    by blast
  have k1: "1 < length [''/w/b.pdf'', ''/w/a/report.pdf'']" by simp
  have k2: "files stale_world (jsonPathForPdf ([''/w/b.pdf'', ''/w/a/report.pdf''] ! 1)) = None
      \<or> access_fails denied_env (jsonPathForPdf ([''/w/b.pdf'', ''/w/a/report.pdf''] ! 1))"
    by (simp add: denied_env_def)
  have t: "started (iteration denied_env [''/w/b.pdf'', ''/w/a/report.pdf''] 1 stale_world)
      = started stale_world @ [[''/w/b.pdf'', ''/w/a/report.pdf''] ! 1]"
    using existing_companion_is_skipped [OF k1, where e = denied_env and w = stale_world] k2
    by blast
  show ?thesis
    unfolding s t by (simp add: companion_example stale_world_def)
qed

text \<open>
  The claim as first stated, for every companion path that exists, fails: \<^verbatim>\<open>fileExists\<close>
  answers \<^verbatim>\<open>false\<close> whenever \<^verbatim>\<open>access\<close> rejects, whatever the reason, and the runner is then
  invoked although the file exists.
\<close>

theorem existing_companion_reprocessed:
  "files stale_world (jsonPathForPdf ''/w/a/report.pdf'') = Some ''old''
   \<and> started (iteration denied_env [''/w/a/report.pdf''] 0 stale_world) = [''/w/a/report.pdf'']"
  by code_simp

text \<open>
  Claim C5. When processing the candidate at index \<open>i\<close> throws, the exception is caught:
  the round prints one error line for that candidate and ends normally, and the loop
  then runs the round of every later candidate, in order. The example has three
  candidates, the second of which throws: the first is written and the third fails, each
  with its own lines.
\<close>

theorem thrown_job_is_isolated:
  assumes "i < length pdfs"
    and "\<not> fileExists e (jsonPathForPdf (pdfs ! i)) w"
    and "runPolkaWithPath e (pdfs ! i) (log (FileIndex (i + 1) (length pdfs) (pdfs ! i)) w) = (Inl x, w')"
  shows "iteration e pdfs i w = error (UnhandledError (pdfs ! i) (stack_or_message x)) w'
     \<and> loop e pdfs i w = fold (iteration e pdfs) [i + 1..<length pdfs]
           (error (UnhandledError (pdfs ! i) (stack_or_message x)) w')"
proof -
  have it: "iteration e pdfs i w = error (UnhandledError (pdfs ! i) (stack_or_message x)) w'"
    using assms(2,3) by (simp add: iteration_def Let_def)
  have "loop e pdfs i w = loop e pdfs (i + 1) (iteration e pdfs i w)"
    using assms(1) by (subst loop.simps) simp
  then show ?thesis unfolding it by (simp add: loop_fold)
qed

theorem thrown_job_is_isolated_witness:
  "out (loop mixed_env [''/w/a.pdf'', ''/w/b.pdf'', ''/w/c.pdf''] 0 empty_world)
     = [(LOG, FileIndex 1 3 ''/w/a.pdf''), (LOG, PolkaExitCode 0 ''/w/a.pdf''), (LOG, WroteJson ''/w/a.json'' 2),
        (LOG, FileIndex 2 3 ''/w/b.pdf''),
        (ERROR, UnhandledError ''/w/b.pdf'' (Stack ''Error: spawn ENOMEM at run.ts:120'')),
        (LOG, FileIndex 3 3 ''/w/c.pdf''), (WARN, NotValidJson ''/w/c.pdf''), (LOG, PolkaExitCode 3 ''/w/c.pdf''),
        (ERROR, PolkaFailed ''/w/c.pdf''), (WARN, ContinuingAfterFailure ''/w/c.pdf'')]
   \<and> started (loop mixed_env [''/w/a.pdf'', ''/w/b.pdf'', ''/w/c.pdf''] 0 empty_world)
     = [''/w/a.pdf'', ''/w/b.pdf'', ''/w/c.pdf'']"
proof -
  define pdfs where "pdfs = [''/w/a.pdf'', ''/w/b.pdf'', ''/w/c.pdf'']"
  define w1 where "w1 = iteration mixed_env pdfs 0 empty_world"
  define x where "x = Exn ''spawn ENOMEM'' ''Error: spawn ENOMEM at run.ts:120''"
  define w2 where "w2 = snd (runPolkaWithPath mixed_env (pdfs ! 1) (log (FileIndex (1 + 1) (length pdfs) (pdfs ! 1)) w1))"
  have l0: "loop mixed_env pdfs 0 empty_world = loop mixed_env pdfs 1 w1"
    unfolding w1_def by (subst loop.simps) (simp add: pdfs_def)
  have h1: "1 < length pdfs" by (simp add: pdfs_def)
  have h2: "\<not> fileExists mixed_env (jsonPathForPdf (pdfs ! 1)) w1"
    unfolding w1_def pdfs_def by code_simp
  have "fst (runPolkaWithPath mixed_env (pdfs ! 1) (log (FileIndex (1 + 1) (length pdfs) (pdfs ! 1)) w1)) = Inl x"
    unfolding w1_def pdfs_def x_def by code_simp
  then have h3: "runPolkaWithPath mixed_env (pdfs ! 1) (log (FileIndex (1 + 1) (length pdfs) (pdfs ! 1)) w1) = (Inl x, w2)"
    by (simp add: prod_eq_iff w2_def)
  have "loop mixed_env pdfs 1 w1 = fold (iteration mixed_env pdfs) [1 + 1..<length pdfs]
           (error (UnhandledError (pdfs ! 1) (stack_or_message x)) w2)"
    using thrown_job_is_isolated [OF h1 h2 h3] by simp
  then have l: "loop mixed_env pdfs 0 empty_world = fold (iteration mixed_env pdfs) [1 + 1..<length pdfs]
           (error (UnhandledError (pdfs ! 1) (stack_or_message x)) w2)"
    using l0 by simp
  show ?thesis
    unfolding pdfs_def [symmetric] l unfolding pdfs_def w2_def w1_def x_def by code_simp
qed

text \<open>
  Claim C6. Every run that completes normally, that is every run in which \<^verbatim>\<open>process.cwd()\<close>
  has returned, ends with exit status zero, whatever happened to the candidates. When
  discovery finds no candidate, the run ends at once: after the lines of discovery it
  prints one warning and nothing else, starts no job and changes no file.
\<close>

theorem run_exit_status_zero:
  "fst (main e (Inr cwd) tree w) = Exit 0
   \<and> (fst (findPdfPathsRecursive cwd cwd tree w) = [] \<longrightarrow>
        snd (main e (Inr cwd) tree w) = warn NoPdfFound (snd (findPdfPathsRecursive cwd cwd tree w))
        \<and> started (snd (main e (Inr cwd) tree w)) = started w
        \<and> files (snd (main e (Inr cwd) tree w)) = files w)"
  using discovery_keeps [of cwd cwd tree w]
  by (auto simp: main_def Let_def split: prod.splits)

theorem run_exit_status_zero_witness:
  "fst (main ok_env (Inr ''/w'') (Directory [(''notes.txt'', RegularFile)]) empty_world) = Exit 0
   \<and> out (snd (main ok_env (Inr ''/w'') (Directory [(''notes.txt'', RegularFile)]) empty_world))
       = [(LOG, DiscoveredPdfs 0), (WARN, NoPdfFound)]
   \<and> started (snd (main ok_env (Inr ''/w'') (Directory [(''notes.txt'', RegularFile)]) empty_world)) = []"
proof -
  have h: "fst (findPdfPathsRecursive ''/w'' ''/w'' (Directory [(''notes.txt'', RegularFile)]) empty_world) = []"
    by code_simp
  have o: "out (warn NoPdfFound (snd (findPdfPathsRecursive ''/w'' ''/w'' (Directory [(''notes.txt'', RegularFile)]) empty_world)))
       = [(LOG, DiscoveredPdfs 0), (WARN, NoPdfFound)]"
    by code_simp
  note t = run_exit_status_zero [of ok_env "''/w''" "Directory [(''notes.txt'', RegularFile)]" empty_world]
  have a: "fst (main ok_env (Inr ''/w'') (Directory [(''notes.txt'', RegularFile)]) empty_world) = Exit 0"
    using t by blast
  have b: "snd (main ok_env (Inr ''/w'') (Directory [(''notes.txt'', RegularFile)]) empty_world)
      = warn NoPdfFound (snd (findPdfPathsRecursive ''/w'' ''/w'' (Directory [(''notes.txt'', RegularFile)]) empty_world))"
    using t h by blast
  have c: "started (snd (main ok_env (Inr ''/w'') (Directory [(''notes.txt'', RegularFile)]) empty_world))
      = started empty_world"
    using t h by blast
  have d: "started empty_world = []" by (simp add: empty_world_def)
  show ?thesis using a c d o unfolding b [symmetric] by simp
qed

text \<open>
  Claim C7, amended. If a fault occurs before discovery begins, that is if \<^verbatim>\<open>process.cwd()\<close>
  throws, the run aborts: the exception is caught nowhere and ends the process, and the
  script itself prints nothing, so that no clear error of its own stands in for what the
  runtime reports. If the root can be named but not read, the run does not abort: the
  scan treats the root as any unreadable directory, prints a warning that shows the
  message of the error when it has one (not its stack) and the thrown value itself
  otherwise, and finds nothing; the run then ends at once with the warning that no PDF
  was found and with exit status zero, without an error line and without a job. No other
  condition is fatal: the run ends on an uncaught exception exactly when \<^verbatim>\<open>process.cwd()\<close>
  has thrown it, and with exit status zero in every other case.
\<close>

theorem only_cwd_fault_aborts:
  "main e (Inl x) tree w = (Uncaught x, w)
   \<and> main e (Inr cwd) (UnreadableDir y) w
       = (Exit 0,
          w\<lparr>out := out w @
             [(WARN, SkipUnreadableDir cwd (if message y \<noteq> [] then Message (message y) else Thrown y)),
              (LOG, DiscoveredPdfs 0), (WARN, NoPdfFound)]\<rparr>)
   \<and> (fst (main e' c tree' w') = Uncaught x') = (c = Inl x')
   \<and> (fst (main e' c tree' w') = Exit 0) = (\<exists>cwd'. c = Inr cwd')"
proof (intro conjI)
  show "main e (Inl x) tree w = (Uncaught x, w)"
    by (simp add: main_def)
  show "main e (Inr cwd) (UnreadableDir y) w
       = (Exit 0,
          w\<lparr>out := out w @
             [(WARN, SkipUnreadableDir cwd (if message y \<noteq> [] then Message (message y) else Thrown y)),
              (LOG, DiscoveredPdfs 0), (WARN, NoPdfFound)]\<rparr>)"
    by (simp add: main_def findPdfPathsRecursive_def message_or_value_def log_def warn_def)
  have r: "fst (main e' (Inr d) tree' w') = Exit 0" for d
    by (simp add: main_def Let_def split: prod.splits)
  show "(fst (main e' c tree' w') = Uncaught x') = (c = Inl x')"
  proof (cases c)
    case (Inl z)
    then show ?thesis by (simp add: main_def)
  next
    case (Inr d)
    then show ?thesis using r [of d] by simp
  qed
  show "(fst (main e' c tree' w') = Exit 0) = (\<exists>cwd'. c = Inr cwd')"
  proof (cases c)
    case (Inl z)
    then show ?thesis by (simp add: main_def)
  next
    case (Inr d)
    then show ?thesis using r [of d] by simp
  qed
qed

theorem only_cwd_fault_aborts_witness:
  "main ok_env (Inr ''/w'') (UnreadableDir (Exn [] ''Error at walk'')) empty_world
     = (Exit 0, empty_world\<lparr>out := [(WARN, SkipUnreadableDir ''/w'' (Thrown (Exn [] ''Error at walk''))),
                                    (LOG, DiscoveredPdfs 0), (WARN, NoPdfFound)]\<rparr>)
   \<and> fst (main ok_env (Inr ''/w'') sample_tree empty_world) = Exit 0"
proof -
  note t = only_cwd_fault_aborts [where e = ok_env and cwd = "''/w''" and y = "Exn [] ''Error at walk''"
      and w = empty_world and e' = ok_env and c = "Inr ''/w''" and tree' = sample_tree and w' = empty_world]
  have a: "main ok_env (Inr ''/w'') (UnreadableDir (Exn [] ''Error at walk'')) empty_world
     = (Exit 0, empty_world\<lparr>out := [(WARN, SkipUnreadableDir ''/w'' (Thrown (Exn [] ''Error at walk''))),
                                    (LOG, DiscoveredPdfs 0), (WARN, NoPdfFound)]\<rparr>)"
    using conjunct1 [OF conjunct2 [OF t]] by (simp add: empty_world_def)
  have "(fst (main ok_env (Inr ''/w'') sample_tree empty_world) = Exit 0) = (\<exists>cwd'. Inr ''/w'' = (Inr cwd' :: exn + string))"
    using conjunct2 [OF conjunct2 [OF conjunct2 [OF t]]] .
  then have b: "fst (main ok_env (Inr ''/w'') sample_tree empty_world) = Exit 0" by simp
  show ?thesis using a b by (rule conjI)
qed

text \<open>
  The claim as first stated fails twice. An inaccessible root does not abort the run: the
  exit status is zero and the three lines printed are a warning, a log line and a
  warning. And a fault before discovery is not surfaced as a clear error: the exception of
  \<^verbatim>\<open>process.cwd()\<close> leaves the script uncaught, and the script has printed nothing.
\<close>

theorem root_fault_not_clear_error:
  "fst (main ok_env (Inr ''/w'')
          (UnreadableDir (Exn ''EACCES: permission denied, scandir'' ''Error: EACCES at walk'')) empty_world)
     = Exit 0
   \<and> out (snd (main ok_env (Inr ''/w'')
          (UnreadableDir (Exn ''EACCES: permission denied, scandir'' ''Error: EACCES at walk'')) empty_world))
     = [(WARN, SkipUnreadableDir ''/w'' (Message ''EACCES: permission denied, scandir'')),
        (LOG, DiscoveredPdfs 0), (WARN, NoPdfFound)]
   \<and> fst (main ok_env (Inl (Exn ''ENOENT: no such file or directory, uv_cwd'' ''Error: ENOENT at run.ts:162''))
          sample_tree empty_world)
     = Uncaught (Exn ''ENOENT: no such file or directory, uv_cwd'' ''Error: ENOENT at run.ts:162'')
   \<and> out (snd (main ok_env (Inl (Exn ''ENOENT: no such file or directory, uv_cwd'' ''Error: ENOENT at run.ts:162''))
          sample_tree empty_world))
     = []"
  by code_simp

text \<open>
  Claim C8. Whether the captured text parses as JSON changes neither what the job returns
  nor the files it leaves: \<^verbatim>\<open>JSON.parse\<close> only decides whether a warning is printed. With
  exit status zero and text that is not valid JSON the warning is printed and the text is
  written all the same: the job returns with the text at the companion path, unless
  \<^verbatim>\<open>Bun.write\<close> itself throws.
\<close>

theorem json_validity_not_decisive:
  "fst (runPolkaWithPath (e\<lparr>json_valid := j\<rparr>) p w) = fst (runPolkaWithPath e p w)
   \<and> files (snd (runPolkaWithPath (e\<lparr>json_valid := j\<rparr>) p w)) = files (snd (runPolkaWithPath e p w))
   \<and> (spawn e (cmd e) (input e p) (files w) = (Exited stdoutText 0, fs) \<and> \<not> json_valid e stdoutText
      \<longrightarrow> (WARN, NotValidJson p) \<in> set (out (snd (runPolkaWithPath e p w)))
          \<and> (case runPolkaWithPath e p w of
                (Inr code, w') \<Rightarrow> files w' (jsonPathForPdf p) = Some stdoutText
              | (Inl x, w') \<Rightarrow> write_fails e (jsonPathForPdf p) = Some x))"
proof -
  note a = runPolkaWithPath_json [where e = e and j = j and p = p and w = w]
  have b: "spawn e (cmd e) (input e p) (files w) = (Exited stdoutText 0, fs) \<and> \<not> json_valid e stdoutText
      \<longrightarrow> (WARN, NotValidJson p) \<in> set (out (snd (runPolkaWithPath e p w)))
          \<and> (case runPolkaWithPath e p w of
                (Inr code, w') \<Rightarrow> files w' (jsonPathForPdf p) = Some stdoutText
              | (Inl x, w') \<Rightarrow> write_fails e (jsonPathForPdf p) = Some x)"
  proof (rule impI)
    assume h: "spawn e (cmd e) (input e p) (files w) = (Exited stdoutText 0, fs) \<and> \<not> json_valid e stdoutText"
    show "(WARN, NotValidJson p) \<in> set (out (snd (runPolkaWithPath e p w)))
          \<and> (case runPolkaWithPath e p w of
                (Inr code, w') \<Rightarrow> files w' (jsonPathForPdf p) = Some stdoutText
              | (Inl x, w') \<Rightarrow> write_fails e (jsonPathForPdf p) = Some x)"
      using conjunct1 [OF h] conjunct2 [OF h] by (rule runPolkaWithPath_not_json)
  qed
  show ?thesis by (rule conjI [OF conjunct1 [OF a] conjI [OF conjunct2 [OF a] b]])
qed

theorem json_validity_not_decisive_witness:
  "fst (runPolkaWithPath (prose_env\<lparr>json_valid := (\<lambda>s. True)\<rparr>) ''/w/a/report.pdf'' empty_world)
     = fst (runPolkaWithPath prose_env ''/w/a/report.pdf'' empty_world)
   \<and> fst (runPolkaWithPath prose_env ''/w/a/report.pdf'' empty_world) = Inr 0
   \<and> files (snd (runPolkaWithPath prose_env ''/w/a/report.pdf'' empty_world)) ''/w/a/report.json''
     = Some ''No findings.''
   \<and> (WARN, NotValidJson ''/w/a/report.pdf'') \<in> set (out (snd (runPolkaWithPath prose_env ''/w/a/report.pdf'' empty_world)))"
proof -
  have h1: "spawn prose_env (cmd prose_env) (input prose_env ''/w/a/report.pdf'') (files empty_world)
      = (Exited ''No findings.'' 0, files empty_world)"
    by (simp add: prose_env_def)
  have h2: "\<not> json_valid prose_env ''No findings.''" by (simp add: prose_env_def ok_env_def)
  have f: "fst (runPolkaWithPath prose_env ''/w/a/report.pdf'' empty_world) = Inr 0" by code_simp
  then have h3: "runPolkaWithPath prose_env ''/w/a/report.pdf'' empty_world
      = (Inr 0, snd (runPolkaWithPath prose_env ''/w/a/report.pdf'' empty_world))"
    by (simp add: prod_eq_iff)
  note t = json_validity_not_decisive [where e = prose_env and j = "\<lambda>s. True" and p = "''/w/a/report.pdf''"
        and w = empty_world and stdoutText = "''No findings.''" and fs = "files empty_world"]
  have a: "fst (runPolkaWithPath (prose_env\<lparr>json_valid := (\<lambda>s. True)\<rparr>) ''/w/a/report.pdf'' empty_world)
     = fst (runPolkaWithPath prose_env ''/w/a/report.pdf'' empty_world)"
    using t by (rule conjunct1)
  have t3: "(WARN, NotValidJson ''/w/a/report.pdf'') \<in> set (out (snd (runPolkaWithPath prose_env ''/w/a/report.pdf'' empty_world)))
     \<and> (case runPolkaWithPath prose_env ''/w/a/report.pdf'' empty_world of
                (Inr code, w') \<Rightarrow> files w' (jsonPathForPdf ''/w/a/report.pdf'') = Some ''No findings.''
              | (Inl x, w') \<Rightarrow> write_fails prose_env (jsonPathForPdf ''/w/a/report.pdf'') = Some x)"
    using conjunct2 [OF conjunct2 [OF t]] h1 h2 by (simp del: split_paired_All)
  have b: "(WARN, NotValidJson ''/w/a/report.pdf'') \<in> set (out (snd (runPolkaWithPath prose_env ''/w/a/report.pdf'' empty_world)))"
    using t3 by (rule conjunct1)
  have "case runPolkaWithPath prose_env ''/w/a/report.pdf'' empty_world of
                (Inr code, w') \<Rightarrow> files w' (jsonPathForPdf ''/w/a/report.pdf'') = Some ''No findings.''
              | (Inl x, w') \<Rightarrow> write_fails prose_env (jsonPathForPdf ''/w/a/report.pdf'') = Some x"
    using t3 by (rule conjunct2)
  then have c: "files (snd (runPolkaWithPath prose_env ''/w/a/report.pdf'' empty_world)) ''/w/a/report.json''
     = Some ''No findings.''"
    by (subst (asm) h3) (simp add: companion_example)
  show ?thesis using a b c f by simp
qed

text \<open>
  Claim C9. \<^verbatim>\<open>jsonPathForPdf\<close> is a function of its argument alone, defined on every string,
  and mapping twice gives the same companion path as mapping once.
\<close>

theorem jsonPathForPdf_idempotent:
  "jsonPathForPdf (jsonPathForPdf p) = jsonPathForPdf p"
proof -
  define x where "x = replace_ext (basename p) @ ''.json''"
  define r where "r = jsonPathForPdf p"
  have x: "proper_segment x" unfolding x_def by (rule companion_name_proper)
  have K: "normal_kept (\<not> (hd (dirname p) = CHR ''/'')) (kept_of (dirname p))"
    using kept_of_normal [of "dirname p"] by simp
  have r: "r = root_prefix (hd (dirname p) = CHR ''/'') @ join_slash (rev (kept_of (dirname p)) @ [x])"
    unfolding r_def x_def by (rule jsonPathForPdf_shape)
  have b: "basename r = x" unfolding r by (rule shaped_basename [OF x])
  have j: "join [dirname r, x] = r" unfolding r by (rule shaped_join [OF K x])
  have "replace_ext (basename r) @ ''.json'' = x"
    unfolding b by (simp add: x_def replace_ext_json)
  then have "jsonPathForPdf r = join [dirname r, x]"
    by (simp add: jsonPathForPdf_def)
  then show ?thesis using j by (simp add: r_def)
qed

theorem jsonPathForPdf_idempotent_witness:
  "jsonPathForPdf (jsonPathForPdf ''/docs/a/report.v2.pdf'') = ''/docs/a/report.v2.json''"
  unfolding jsonPathForPdf_idempotent by code_simp

text \<open>
  Claim C10. If the base name of the path contains no dot, nothing is stripped: the
  result is the directory of the input joined with the base name followed by \<^verbatim>\<open>.json\<close>,
  and that is its base name. In every case the result ends in \<^verbatim>\<open>.json\<close>, and its directory
  denotes the directory of the input: both resolve to the same path, from any working
  directory.
\<close>

theorem jsonPathForPdf_appends_json:
  "(CHR ''.'' \<notin> set (basename p) \<longrightarrow>
       jsonPathForPdf p = join [dirname p, basename p @ ''.json'']
       \<and> basename (jsonPathForPdf p) = basename p @ ''.json'')
   \<and> (\<exists>stem. jsonPathForPdf p = stem @ ''.json'')
   \<and> resolve cwd [dirname (jsonPathForPdf p)] = resolve cwd [dirname p]"
  using jsonPathForPdf_basename [of p] jsonPathForPdf_suffix [of p] jsonPathForPdf_directory [of cwd p]
  by (auto simp: replace_ext_no_dot jsonPathForPdf_def)

theorem jsonPathForPdf_appends_json_witness:
  "jsonPathForPdf ''/docs/README'' = ''/docs/README.json''
   \<and> basename (jsonPathForPdf ''/docs/README'') = ''README.json''"
proof -
  have h: "CHR ''.'' \<notin> set (basename ''/docs/README'')" by code_simp
  have j: "join [dirname ''/docs/README'', basename ''/docs/README'' @ ''.json''] = ''/docs/README.json''"
    by code_simp
  have b: "basename ''/docs/README'' = ''README''" by code_simp
  note t = jsonPathForPdf_appends_json [of "''/docs/README''" "''/w''"]
  have e1: "jsonPathForPdf ''/docs/README'' = join [dirname ''/docs/README'', basename ''/docs/README'' @ ''.json'']"
    using t h by blast
  have e2: "basename (jsonPathForPdf ''/docs/README'') = basename ''/docs/README'' @ ''.json''"
    using t h by blast
  have "jsonPathForPdf ''/docs/README'' = ''/docs/README.json''" using e1 j by (rule trans)
  moreover have "basename (jsonPathForPdf ''/docs/README'') = ''README.json''" unfolding e2 b by simp
  ultimately show ?thesis by (rule conjI)
qed

end
